theory Spec2Isabelle
  imports Main "HOL-Library.Char_ord" "HOL-Library.List_Lexorder" "HOL-Library.Multiset"
begin

section \<open>Data model (types.ts)\<close>

text \<open>
  The records follow the TypeScript interfaces. A field keeps its source name unless the
  name is an Isabelle keyword or is shared by two interfaces; then it carries a short
  prefix (\<open>wlemma\<close>, \<open>cardId\<close>, \<open>segId\<close>, \<open>artId\<close>, \<open>colId\<close>, ...).
  JavaScript numbers that count things (\<open>stage\<close>, \<open>index\<close>, \<open>limit\<close>, \<open>offset\<close>) are
  natural numbers, the clock and the review grade are integers. A review computes
  \<open>nextReview\<close> in double arithmetic, which rounds above \<open>2^53\<close> and overflows to
  \<open>Infinity\<close>: the field holds a \<open>jsNumber\<close>, an integer or one of the two infinities,
  ordered as IndexedDB orders number keys.
  Strings are compared as IndexedDB compares keys, unit by unit: that is the order of
  \<open>string\<close> given by the two library imports.
\<close>

datatype jsNumber = NegInfinity | Finite int | Infinity

instantiation jsNumber :: linorder
begin

fun less_eq_jsNumber :: "jsNumber \<Rightarrow> jsNumber \<Rightarrow> bool" where
  "less_eq_jsNumber NegInfinity y = True"
| "less_eq_jsNumber (Finite a) NegInfinity = False"
| "less_eq_jsNumber (Finite a) (Finite b) = (a \<le> b)"
| "less_eq_jsNumber (Finite a) Infinity = True"
| "less_eq_jsNumber Infinity Infinity = True"
| "less_eq_jsNumber Infinity y = False"

definition less_jsNumber :: "jsNumber \<Rightarrow> jsNumber \<Rightarrow> bool" where
  "less_jsNumber x y = (x \<le> y \<and> \<not> y \<le> x)"

instance
proof
  fix x y z :: jsNumber
  show "(x < y) = (x \<le> y \<and> \<not> y \<le> x)" by (simp add: less_jsNumber_def)
  show "x \<le> x" by (cases x) simp_all
  show "x \<le> y \<Longrightarrow> y \<le> z \<Longrightarrow> x \<le> z"
    by (cases x; cases y; cases z) simp_all
  show "x \<le> y \<Longrightarrow> y \<le> x \<Longrightarrow> x = y"
    by (cases x; cases y) simp_all
  show "x \<le> y \<or> y \<le> x"
    by (cases x; cases y) auto
qed

end

datatype analysisType = Vocabulary | Grammar | Literary | Historical

text \<open>The string a value of \<open>AnalysisType\<close> is at run time; the \<open>by-type\<close> index key.\<close>

fun typeKey :: "analysisType \<Rightarrow> string" where
  "typeKey Vocabulary = ''vocabulary''"
| "typeKey Grammar = ''grammar''"
| "typeKey Literary = ''literary''"
| "typeKey Historical = ''historical''"

record wordAnalysis =
  type :: analysisType
  word :: string
  wlemma :: string
  phonetic :: "string option"
  partOfSpeech :: "string option"
  collocations :: "string list"
  wcontext :: string
  level :: string
  wdefinition :: string
  persianTranslation :: string
  exampleSentence :: string

record flashcard = wordAnalysis +
  cardId :: string
  articleId :: string
  nextReview :: jsNumber
  stage :: nat
  createdAt :: int

record articleSegment =
  segId :: string
  index :: nat
  segTitle :: string
  content :: string
  analyzedWords :: "wordAnalysis list"
  approvedWordIds :: "string list"
  segTranslation :: "string option"
  isAnalyzed :: bool

text \<open>
  A record of the \<open>segments\<close> object store: \<open>addArticle\<close> writes
  \<open>{ ...segment, articleId: article.id }\<close>, the key of the \<open>by-article\<close> index.
\<close>

record storedSegment = articleSegment +
  segArticleId :: string

record article =
  artId :: string
  artTitle :: string
  artSegments :: "articleSegment list"
  collectionId :: "string option"
  processedAt :: int

record collection =
  colId :: string
  name :: string
  description :: "string option"
  coverImage :: "string option"

datatype ttsEngineKind = Gemini | Native

record appSettings =
  analysisModel :: string
  translationModel :: string
  ttsModel :: string
  pronunciationModel :: string
  ttsEngine :: ttsEngineKind
  segmentLength :: nat
  enabledTypes :: "analysisType list"

section \<open>The record store (services/db.ts)\<close>

text \<open>
  An IndexedDB object store with \<open>keyPath: 'id'\<close> holds at most one record per key and
  hands its records out in ascending key order. It is modelled as the list of its records
  in that order; \<open>wfObjectStore\<close> states the order and the uniqueness of keys.
  \<^item> \<open>put\<close> replaces the record with the same key or inserts the record at its place;
  \<^item> \<open>get\<close> returns the record with the key, or \<open>None\<close> (\<open>undefined\<close>);
  \<^item> \<open>getAll\<close> returns every record, in key order;
  \<^item> \<open>getAllFromIndex\<close> returns the records whose index key lies in the queried range,
    ordered by index key and, among equal index keys, by primary key.
\<close>

definition wfObjectStore :: "('a \<Rightarrow> string) \<Rightarrow> 'a list \<Rightarrow> bool" where
  "wfObjectStore key xs = (sorted (map key xs) \<and> distinct (map key xs))"

definition put :: "('a \<Rightarrow> string) \<Rightarrow> 'a \<Rightarrow> 'a list \<Rightarrow> 'a list" where
  "put key r xs = insort_key key r (filter (\<lambda>x. key x \<noteq> key r) xs)"

definition get :: "('a \<Rightarrow> string) \<Rightarrow> string \<Rightarrow> 'a list \<Rightarrow> 'a option" where
  "get key k xs = find (\<lambda>x. key x = k) xs"

definition getAll :: "'a list \<Rightarrow> 'a list" where
  "getAll xs = xs"

definition getAllFromIndex :: "('a \<Rightarrow> 'i::linorder) \<Rightarrow> ('i \<Rightarrow> bool) \<Rightarrow> 'a list \<Rightarrow> 'a list" where
  "getAllFromIndex idx inRange xs = sort_key idx (filter (\<lambda>x. inRange (idx x)) xs)"

text \<open>
  The database: the five object stores. Every writer of the \<open>settings\<close> store forces the
  key \<open>'config'\<close> (\<open>saveSettings\<close>, \<open>importDatabase\<close>), so that store holds one record or none.
\<close>

record store =
  articles :: "article list"
  segments :: "storedSegment list"
  flashcards :: "flashcard list"
  settings :: "appSettings option"
  collections :: "collection list"

definition emptyStore :: store where
  "emptyStore = \<lparr>articles = [], segments = [], flashcards = [], settings = None, collections = []\<rparr>"

definition wfStore :: "store \<Rightarrow> bool" where
  "wfStore st =
     (wfObjectStore artId (articles st) \<and> wfObjectStore segId (segments st) \<and>
      wfObjectStore cardId (flashcards st) \<and> wfObjectStore colId (collections st))"

definition getFlashcard :: "string \<Rightarrow> store \<Rightarrow> flashcard option" where
  "getFlashcard k st = get cardId k (flashcards st)"

definition updateFlashcard :: "flashcard \<Rightarrow> store \<Rightarrow> store" where
  "updateFlashcard fc st = st\<lparr>flashcards := put cardId fc (flashcards st)\<rparr>"

fun addFlashcards :: "flashcard list \<Rightarrow> store \<Rightarrow> store" where
  "addFlashcards [] st = st"
| "addFlashcards (fc # cards) st =
     addFlashcards cards (st\<lparr>flashcards := put cardId fc (flashcards st)\<rparr>)"

definition getSegment :: "string \<Rightarrow> nat \<Rightarrow> store \<Rightarrow> storedSegment option" where
  "getSegment aid i st =
     find (\<lambda>s. index s = i) (getAllFromIndex segArticleId (\<lambda>k. k = aid) (segments st))"

definition updateSegment :: "storedSegment \<Rightarrow> store \<Rightarrow> store" where
  "updateSegment segment st = st\<lparr>segments := put segId segment (segments st)\<rparr>"

section \<open>The scheduler (store/AppContext.tsx, markCardReviewed)\<close>

text \<open>
  The arithmetic of a review is the arithmetic of IEEE doubles on integers. A double
  holds every integer up to \<open>2^53 = 9007199254740992\<close> in size; above, it holds the
  multiples of the unit \<open>ulpOf\<close> of its binade (2 up to \<open>2^54\<close>, 4 up to \<open>2^55\<close>, ...), and an
  exact result is rounded to the nearest of them, a tie to the one with the even
  significand. A result that rounds to \<open>2^1024\<close> or beyond is an infinity.
\<close>

fun ulpOf :: "nat \<Rightarrow> nat" where
  "ulpOf a = (if a < 9007199254740992 then 1 else 2 * ulpOf (a div 2))"

declare ulpOf.simps [simp del]

definition roundNat :: "nat \<Rightarrow> nat" where
  "roundNat a =
     (let q = ulpOf a; r = a mod q; lo = a - r
      in if 2 * r < q \<or> (2 * r = q \<and> even (lo div q)) then lo else lo + q)"

definition roundToDouble :: "int \<Rightarrow> int" where
  "roundToDouble x = (if x < 0 then - int (roundNat (nat (- x))) else int (roundNat (nat x)))"

definition asDouble :: "int \<Rightarrow> jsNumber" where
  "asDouble x =
     (let m = roundToDouble x
      in if 2 ^ 1024 \<le> m then Infinity else if m \<le> - (2 ^ 1024) then NegInfinity else Finite m)"

text \<open>
  \<open>Math.pow(2, n)\<close> for a stage \<open>n\<close>; \<open>x * k\<close> for one of the positive literals \<open>24\<close>, \<open>60\<close>,
  \<open>1000\<close> of line 184; \<open>Date.now() + x\<close>, whose left operand is finite.
\<close>

definition pow2 :: "nat \<Rightarrow> jsNumber" where
  "pow2 n = (if n \<le> 1023 then Finite (2 ^ n) else Infinity)"

definition jsTimes :: "jsNumber \<Rightarrow> int \<Rightarrow> jsNumber" where
  "jsTimes x k =
     (case x of Finite a \<Rightarrow> asDouble (a * k) | Infinity \<Rightarrow> Infinity | NegInfinity \<Rightarrow> NegInfinity)"

definition jsPlus :: "int \<Rightarrow> jsNumber \<Rightarrow> jsNumber" where
  "jsPlus now x =
     (case x of Finite b \<Rightarrow> asDouble (now + b) | Infinity \<Rightarrow> Infinity | NegInfinity \<Rightarrow> NegInfinity)"

text \<open>
  \<open>now\<close> is the value of \<open>Date.now()\<close> at line 184. A card that is not in the store leaves
  the store as it is (the early \<open>return\<close>). The new stage is \<open>stage + 1\<close> as a double; a
  stage is itself a double, so the increment does not overflow.
\<close>

definition markCardReviewed :: "int \<Rightarrow> string \<Rightarrow> int \<Rightarrow> store \<Rightarrow> store" where
  "markCardReviewed now k quality st =
     (case getFlashcard k st of
        None \<Rightarrow> st
      | Some fc \<Rightarrow>
          (let (newStage, intervalDays) =
                 (if quality \<ge> 3
                  then (let newStage = nat (roundToDouble (int (stage fc) + 1))
                        in (newStage, pow2 newStage))
                  else (0, Finite 0));
               nextReview' =
                 jsPlus now (jsTimes (jsTimes (jsTimes (jsTimes intervalDays 24) 60) 60) 1000);
               updated = fc\<lparr>stage := newStage, nextReview := nextReview'\<rparr>
           in updateFlashcard updated st))"

section \<open>The query engine (services/db.ts, queryFlashcards)\<close>

text \<open>
  The criteria object. A string filter takes part in the query when it is truthy and not
  \<open>'all'\<close> (\<open>criteria.x && criteria.x !== 'all'\<close>): \<open>active\<close> returns its value then.
  An absent filter, the empty string and \<open>'all'\<close> are all inactive.
\<close>

record criteria =
  critArticleId :: "string option"
  critType :: "string option"
  critLevel :: "string option"
  search :: "string option"
  limit :: "nat option"
  offset :: "nat option"

definition active :: "string option \<Rightarrow> string option" where
  "active f = (case f of None \<Rightarrow> None | Some s \<Rightarrow> if s = [] \<or> s = ''all'' then None else Some s)"

text \<open>
  The string operations of the platform that the filter uses. \<open>String.prototype.toLowerCase\<close>
  follows the Unicode case mappings, which the repository does not hold: it is the parameter
  \<open>lower\<close> of the query. \<open>includesStr s q\<close> is \<open>s.includes(q)\<close>: \<open>q\<close> occurs in \<open>s\<close> as a
  contiguous substring.
\<close>

fun includesStr :: "string \<Rightarrow> string \<Rightarrow> bool" where
  "includesStr [] q = (q = [])"
| "includesStr (c # cs) q = (take (length q) (c # cs) = q \<or> includesStr cs q)"

text \<open>Lines 180-181: the card stays unless neither test finds the lowered query.\<close>

definition searchKeeps :: "(string \<Rightarrow> string) \<Rightarrow> string \<Rightarrow> flashcard \<Rightarrow> bool" where
  "searchKeeps lower s c =
     (let q = lower s
      in \<not> (\<not> includesStr (lower (word c)) q \<and> \<not> includesStr (persianTranslation c) q))"

text \<open>The callback of \<open>results.filter\<close> (lines 174-184).\<close>

definition matches :: "(string \<Rightarrow> string) \<Rightarrow> criteria \<Rightarrow> flashcard \<Rightarrow> bool" where
  "matches lower criteria c =
     ((case active (critArticleId criteria) of None \<Rightarrow> True | Some a \<Rightarrow> articleId c = a) \<and>
      (case active (critType criteria) of None \<Rightarrow> True | Some t \<Rightarrow> typeKey (type c) = t) \<and>
      (case active (critLevel criteria) of None \<Rightarrow> True | Some l \<Rightarrow> level c = l) \<and>
      (case search criteria of None \<Rightarrow> True
       | Some s \<Rightarrow> if s = [] then True else searchKeeps lower s c))"

text \<open>\<open>xs.slice(start, stop)\<close> for indices that are not negative.\<close>

definition slice :: "nat \<Rightarrow> nat \<Rightarrow> 'a list \<Rightarrow> 'a list" where
  "slice start stop xs = take (stop - start) (drop start xs)"

text \<open>Lines 164-172: one index seeds the candidates, or the whole store does.\<close>

definition seedCandidates :: "criteria \<Rightarrow> store \<Rightarrow> flashcard list" where
  "seedCandidates criteria st =
     (case active (critArticleId criteria) of
        Some a \<Rightarrow> getAllFromIndex articleId (\<lambda>k. k = a) (flashcards st)
      | None \<Rightarrow>
         (case active (critType criteria) of
            Some t \<Rightarrow> getAllFromIndex (\<lambda>c. typeKey (type c)) (\<lambda>k. k = t) (flashcards st)
          | None \<Rightarrow>
             (case active (critLevel criteria) of
                Some l \<Rightarrow> getAllFromIndex level (\<lambda>k. k = l) (flashcards st)
              | None \<Rightarrow> getAll (flashcards st))))"

text \<open>
  \<open>a.word.localeCompare(b.word)\<close> is the collation of the user's locale, which the
  repository does not fix. It is a parameter: \<open>collate\<close> maps a headword to its collation
  key in some linear order, and \<open>results.sort\<close> (a stable sort) becomes \<open>sort_key\<close>.
  An offset or limit of \<open>0\<close> is falsy, as an absent one.
\<close>

definition queryFlashcards ::
  "(string \<Rightarrow> string) \<Rightarrow> (string \<Rightarrow> 'k::linorder) \<Rightarrow> criteria \<Rightarrow> store \<Rightarrow> flashcard list" where
  "queryFlashcards lower collate criteria st =
     (let results = seedCandidates criteria st;
          results = filter (matches lower criteria) results;
          results = sort_key (\<lambda>c. collate (word c)) results;
          start = (case offset criteria of None \<Rightarrow> 0 | Some n \<Rightarrow> n);
          stop = (case limit criteria of
                    None \<Rightarrow> length results
                  | Some n \<Rightarrow> if n = 0 then length results else start + n)
      in slice start stop results)"

definition getDueFlashcards :: "int \<Rightarrow> nat \<Rightarrow> store \<Rightarrow> flashcard list" where
  "getDueFlashcards now n st =
     slice 0 n (getAllFromIndex nextReview (\<lambda>k. k \<le> Finite now) (flashcards st))"

definition getNewFlashcards :: "nat \<Rightarrow> store \<Rightarrow> flashcard list" where
  "getNewFlashcards n st = slice 0 n (getAllFromIndex stage (\<lambda>k. k = 0) (flashcards st))"

section \<open>Session selection (store/AppContext.tsx, getCardsForSession)\<close>

text \<open>
  \<open>cards.sort(() => Math.random() - 0.5)\<close> rearranges the cards in an order the code does
  not determine: \<open>shuffle\<close> is a parameter, and the theorems ask of it only that it
  returns a rearrangement of its argument. The limit is an argument here; a caller that
  leaves it out passes \<open>50\<close>.
\<close>

datatype mode = ModeDue | ModeNew | ModeAll

definition getCardsForSession ::
  "(string \<Rightarrow> string) \<Rightarrow> (string \<Rightarrow> 'k::linorder) \<Rightarrow> (flashcard list \<Rightarrow> flashcard list) \<Rightarrow> int \<Rightarrow>
     mode \<Rightarrow> criteria \<Rightarrow> nat \<Rightarrow> store \<Rightarrow> flashcard list" where
  "getCardsForSession lower collate shuffle now m filters n st =
     (let cards =
            (case m of
               ModeDue \<Rightarrow> getDueFlashcards now n st
             | ModeNew \<Rightarrow> getNewFlashcards n st
             | ModeAll \<Rightarrow> queryFlashcards lower collate (filters\<lparr>limit := Some n\<rparr>) st);
          cards = (case active (critType filters) of
                     None \<Rightarrow> cards | Some t \<Rightarrow> filter (\<lambda>c. typeKey (type c) = t) cards);
          cards = (case active (critLevel filters) of
                     None \<Rightarrow> cards | Some l \<Rightarrow> filter (\<lambda>c. level c = l) cards);
          cards = (case active (critArticleId filters) of
                     None \<Rightarrow> cards | Some a \<Rightarrow> filter (\<lambda>c. articleId c = a) cards)
      in shuffle cards)"

section \<open>Backup and restore (services/db.ts, exportDatabase and importDatabase)\<close>

text \<open>
  The backup document. \<open>importDatabase\<close> takes \<open>data: any\<close> and tests each entry for
  presence, so every entry of the document is optional.
\<close>

record backup =
  version :: nat
  timestamp :: int
  docArticles :: "article list option"
  docSegments :: "storedSegment list option"
  docFlashcards :: "flashcard list option"
  docSettings :: "appSettings option"
  docCollections :: "collection list option"

definition exportDatabase :: "int \<Rightarrow> store \<Rightarrow> backup" where
  "exportDatabase now st =
     \<lparr>version = 1, timestamp = now,
      docArticles = Some (getAll (articles st)),
      docSegments = Some (getAll (segments st)),
      docFlashcards = Some (getAll (flashcards st)),
      docSettings = settings st,
      docCollections = Some (getAll (collections st))\<rparr>"

text \<open>\<open>for (const item of items) await store.put(item)\<close>.\<close>

fun putAll :: "('a \<Rightarrow> string) \<Rightarrow> 'a list \<Rightarrow> 'a list \<Rightarrow> 'a list" where
  "putAll key [] xs = xs"
| "putAll key (item # items) xs = putAll key items (put key item xs)"

definition importDatabase :: "backup \<Rightarrow> store \<Rightarrow> store" where
  "importDatabase data st =
     (let st = (case docArticles data of
                  None \<Rightarrow> st | Some items \<Rightarrow> st\<lparr>articles := putAll artId items (articles st)\<rparr>);
          st = (case docSegments data of
                  None \<Rightarrow> st | Some items \<Rightarrow> st\<lparr>segments := putAll segId items (segments st)\<rparr>);
          st = (case docFlashcards data of
                  None \<Rightarrow> st | Some items \<Rightarrow> st\<lparr>flashcards := putAll cardId items (flashcards st)\<rparr>);
          st = (case docCollections data of
                  None \<Rightarrow> st | Some items \<Rightarrow> st\<lparr>collections := putAll colId items (collections st)\<rparr>);
          st = (case docSettings data of
                  None \<Rightarrow> st | Some s \<Rightarrow> st\<lparr>settings := Some s\<rparr>)
      in st)"

section \<open>Word approval (store/AppContext.tsx)\<close>

text \<open>
  \<open>nanoid\<close> gives the identifiers the calls of \<open>nanoid()\<close> return, in call order;
  \<open>now\<close> is the value of \<open>Date.now()\<close>.
\<close>

definition newFlashcard :: "wordAnalysis \<Rightarrow> string \<Rightarrow> string \<Rightarrow> int \<Rightarrow> flashcard" where
  "newFlashcard w k aid now =
     wordAnalysis.extend w
       (flashcard.fields k aid (Finite now) 0 now)"

definition approveWordsForSegment ::
  "int \<Rightarrow> (nat \<Rightarrow> string) \<Rightarrow> string \<Rightarrow> nat \<Rightarrow> string list \<Rightarrow> store \<Rightarrow> store" where
  "approveWordsForSegment now nanoid aid segmentIndex selectedLemmas st =
     (case getSegment aid segmentIndex st of
        None \<Rightarrow> st
      | Some segment \<Rightarrow>
          (let ws = filter (\<lambda>w. wlemma w \<in> set selectedLemmas) (analyzedWords segment);
               newFlashcards = map (\<lambda>(i, w). newFlashcard w (nanoid i) aid now) (enumerate 0 ws);
               st = addFlashcards newFlashcards st;
               updatedSegment = segment\<lparr>approvedWordIds := selectedLemmas\<rparr>
           in updateSegment updatedSegment st))"

definition addCustomWordToSegment ::
  "int \<Rightarrow> (nat \<Rightarrow> string) \<Rightarrow> string \<Rightarrow> nat \<Rightarrow> wordAnalysis \<Rightarrow> store \<Rightarrow> store" where
  "addCustomWordToSegment now nanoid aid segmentIndex analysis st =
     (case getSegment aid segmentIndex st of
        None \<Rightarrow> st
      | Some segment \<Rightarrow>
          (let exists = (wlemma analysis \<in> set (map wlemma (analyzedWords segment)));
               st = (if \<not> exists
                     then updateSegment
                            (segment\<lparr>analyzedWords := analyzedWords segment @ [analysis],
                                     approvedWordIds := approvedWordIds segment @ [wlemma analysis]\<rparr>) st
                     else st);
               newCard = newFlashcard analysis (nanoid 0) aid now
           in addFlashcards [newCard] st))"

section \<open>Reference definitions for the properties\<close>

text \<open>
  The full scan that the query is compared with, written from the words of the query's
  contract and from nothing of the code. A criterion on article, type or level is given
  when it is present and not \<open>'all'\<close>, and asks for an exact match. A search text asks
  that it occurs, letter case ignored, in the headword or in the translation. The cards
  that satisfy every given criterion are sorted by headword; the page is what is left after
  dropping \<open>offset\<close> cards (none when absent) and taking \<open>limit\<close> (all when absent).
\<close>

definition isSubstring :: "string \<Rightarrow> string \<Rightarrow> bool" where
  "isSubstring q s = list_ex (\<lambda>i. take (length q) (drop i s) = q) [0..<Suc (length s)]"

definition includesIgnoringCase :: "(string \<Rightarrow> string) \<Rightarrow> string \<Rightarrow> string \<Rightarrow> bool" where
  "includesIgnoringCase lower s q = isSubstring (lower q) (lower s)"

definition satisfiesAll :: "(string \<Rightarrow> string) \<Rightarrow> criteria \<Rightarrow> flashcard \<Rightarrow> bool" where
  "satisfiesAll lower criteria c =
     ((case critArticleId criteria of None \<Rightarrow> True | Some a \<Rightarrow> a = ''all'' \<or> articleId c = a) \<and>
      (case critType criteria of None \<Rightarrow> True | Some t \<Rightarrow> t = ''all'' \<or> typeKey (type c) = t) \<and>
      (case critLevel criteria of None \<Rightarrow> True | Some l \<Rightarrow> l = ''all'' \<or> level c = l) \<and>
      (case search criteria of
         None \<Rightarrow> True
       | Some s \<Rightarrow> includesIgnoringCase lower (word c) s \<or>
                   includesIgnoringCase lower (persianTranslation c) s))"

definition naiveQuery ::
  "(string \<Rightarrow> string) \<Rightarrow> (string \<Rightarrow> 'k::linorder) \<Rightarrow> criteria \<Rightarrow> store \<Rightarrow> flashcard list" where
  "naiveQuery lower collate criteria st =
     (let kept = filter (satisfiesAll lower criteria) (flashcards st);
          ordered = sort_key (\<lambda>c. collate (word c)) kept;
          rest = drop (case offset criteria of None \<Rightarrow> 0 | Some n \<Rightarrow> n) ordered
      in case limit criteria of None \<Rightarrow> rest | Some n \<Rightarrow> take n rest)"

text \<open>
  A client that reads page after page, as the card library does with its page counter:
  it asks for \<open>pageSize\<close> records at \<open>off\<close>, and goes on at \<open>off + pageSize\<close> until a page comes
  back empty. \<open>None\<close> is a loop that never ends.
\<close>

partial_function (option) collectPages ::
  "(string \<Rightarrow> string) \<Rightarrow> (string \<Rightarrow> 'k::linorder) \<Rightarrow> criteria \<Rightarrow> nat \<Rightarrow> nat \<Rightarrow> store \<Rightarrow>
     flashcard list option" where
  "collectPages lower collate criteria pageSize off st =
     (let page =
            queryFlashcards lower collate (criteria\<lparr>limit := Some pageSize, offset := Some off\<rparr>) st
      in if page = [] then Some []
         else Option.bind (collectPages lower collate criteria pageSize (off + pageSize) st)
                (\<lambda>more. Some (page @ more)))"

text \<open>
  The filters \<open>getCardsForSession\<close> applies after it has fetched its cards: exact match on
  type, level and article, each only when it is given.
\<close>

definition residual :: "criteria \<Rightarrow> flashcard \<Rightarrow> bool" where
  "residual filters c =
     ((active (critType filters) = None \<or> active (critType filters) = Some (typeKey (type c))) \<and>
      (active (critLevel filters) = None \<or> active (critLevel filters) = Some (level c)) \<and>
      (active (critArticleId filters) = None \<or> active (critArticleId filters) = Some (articleId c)))"

text \<open>
  Sequences of the two segment operations, and the invariant on a stored segment: every
  approved lemma is the lemma of an analysed word of the segment.
\<close>

datatype segmentOp =
    ApproveWords int "nat \<Rightarrow> string" string nat "string list"
  | AddCustomWord int "nat \<Rightarrow> string" string nat wordAnalysis

fun applyOp :: "segmentOp \<Rightarrow> store \<Rightarrow> store" where
  "applyOp (ApproveWords now nanoid aid i lemmas) st = approveWordsForSegment now nanoid aid i lemmas st"
| "applyOp (AddCustomWord now nanoid aid i analysis) st = addCustomWordToSegment now nanoid aid i analysis st"

fun runOps :: "segmentOp list \<Rightarrow> store \<Rightarrow> store" where
  "runOps [] st = st"
| "runOps (x # xs) st = runOps xs (applyOp x st)"

definition approvedAreAnalyzed :: "storedSegment \<Rightarrow> bool" where
  "approvedAreAnalyzed s = (set (approvedWordIds s) \<subseteq> set (map wlemma (analyzedWords s)))"

definition segmentsInv :: "store \<Rightarrow> bool" where
  "segmentsInv st = list_all approvedAreAnalyzed (segments st)"

text \<open>
  The selection handed to \<open>approveWordsForSegment\<close> is taken from the analysed words of
  the segment it addresses (the word-selection screen builds it from them).
\<close>

fun selectionFromSegment :: "segmentOp \<Rightarrow> store \<Rightarrow> bool" where
  "selectionFromSegment (ApproveWords now nanoid aid i lemmas) st =
     (case getSegment aid i st of
        None \<Rightarrow> True
      | Some segment \<Rightarrow> set lemmas \<subseteq> set (map wlemma (analyzedWords segment)))"
| "selectionFromSegment (AddCustomWord now nanoid aid i analysis) st = True"

fun selectionsFromSegments :: "segmentOp list \<Rightarrow> store \<Rightarrow> bool" where
  "selectionsFromSegments [] st = True"
| "selectionsFromSegments (x # xs) st =
     (selectionFromSegment x st \<and> selectionsFromSegments xs (applyOp x st))"

text \<open>
  What a merge of an imported array into an object store is. No array: the store is as
  it was. An array: every stored record whose key the array does not hold is still there;
  under every key of the array the store now answers with the last record the array holds
  for it; and every record of the store is such a last imported record or, when the array
  has none with its key, a record stored before.
\<close>

definition mergeOf :: "('a \<Rightarrow> string) \<Rightarrow> 'a list option \<Rightarrow> 'a list \<Rightarrow> 'a list \<Rightarrow> bool" where
  "mergeOf key imported stored result =
     (case imported of
        None \<Rightarrow> result = stored
      | Some items \<Rightarrow>
          (\<forall>r \<in> set stored. key r \<notin> set (map key items) \<longrightarrow> r \<in> set result) \<and>
          (\<forall>d \<in> set items. get key (key d) result = find (\<lambda>x. key x = key d) (rev items)) \<and>
          (\<forall>r \<in> set result.
             case find (\<lambda>x. key x = key r) (rev items) of
               Some d \<Rightarrow> r = d
             | None \<Rightarrow> r \<in> set stored))"

section \<open>Example data\<close>

text \<open>
  What \<open>toLowerCase\<close> does on text in ASCII: the letters \<open>A\<close>..\<open>Z\<close> become \<open>a\<close>..\<open>z\<close>. The
  examples are in ASCII; they use it as \<open>lower\<close> and, as a collation that ignores case, as
  \<open>collate\<close>.
\<close>

definition asciiLowerChar :: "char \<Rightarrow> char" where
  "asciiLowerChar c =
     (case map_of (zip ''ABCDEFGHIJKLMNOPQRSTUVWXYZ'' ''abcdefghijklmnopqrstuvwxyz'') c of
        None \<Rightarrow> c
      | Some l \<Rightarrow> l)"

definition asciiLower :: "string \<Rightarrow> string" where
  "asciiLower s = map asciiLowerChar s"

definition exampleCard :: "string \<Rightarrow> string \<Rightarrow> string \<Rightarrow> string \<Rightarrow> int \<Rightarrow> nat \<Rightarrow> flashcard" where
  "exampleCard k aid w tr due stg =
     \<lparr>type = Vocabulary, word = w, wlemma = w, phonetic = None, partOfSpeech = None,
      collocations = [], wcontext = [], level = ''B2'', wdefinition = [],
      persianTranslation = tr, exampleSentence = [],
      cardId = k, articleId = aid, nextReview = Finite due, stage = stg, createdAt = 0\<rparr>"

text \<open>
  Three cards of article \<open>A1\<close> at stages 0, 1 and 2, due at \<open>now - 1000\<close>, \<open>now + 1000\<close> and
  \<open>now - 5000\<close> for \<open>now = 10000\<close> (the scenario of the spec), and one card of article \<open>A2\<close>.
\<close>

definition exampleStore :: store where
  "exampleStore =
     \<lparr>articles = [], segments = [],
      flashcards = [exampleCard ''c1'' ''A1'' ''apple'' ''sib'' 9000 0,
                    exampleCard ''c2'' ''A1'' ''Cherry'' ''gilas'' 11000 1,
                    exampleCard ''c3'' ''A1'' ''banana'' ''NATO'' 5000 2,
                    exampleCard ''c4'' ''A2'' ''date'' ''khorma'' 7000 0],
      settings = None, collections = []\<rparr>"

text \<open>
  A deck of six cards over two articles, two types and two levels, with translations
  in lower case, and a store with one card that has passed 26 reviews.
\<close>

definition exampleDeck :: store where
  "exampleDeck =
     \<lparr>articles = [], segments = [],
      flashcards = [exampleCard ''d1'' ''A1'' ''apple'' ''sib'' 9000 0,
                    (exampleCard ''d2'' ''A1'' ''Cherry'' ''gilas'' 9000 0)\<lparr>type := Grammar\<rparr>,
                    exampleCard ''d3'' ''A2'' ''grape'' ''angur'' 9000 0,
                    (exampleCard ''d4'' ''A1'' ''papaya'' ''papaya'' 9000 0)\<lparr>level := ''C1''\<rparr>,
                    exampleCard ''d5'' ''A1'' ''Apricot'' ''zardalu'' 9000 0,
                    exampleCard ''d6'' ''A1'' ''fig'' ''anjir'' 9000 0],
      settings = None, collections = []\<rparr>"

definition exampleVeteran :: store where
  "exampleVeteran =
     \<lparr>articles = [], segments = [],
      flashcards = [exampleCard ''c1'' ''A1'' ''apple'' ''sib'' 9000 26],
      settings = None, collections = []\<rparr>"

text \<open>A small library: one article with one segment, two cards, settings and a collection.\<close>

definition exampleWord :: "string \<Rightarrow> wordAnalysis" where
  "exampleWord w =
     \<lparr>type = Vocabulary, word = w, wlemma = w, phonetic = None, partOfSpeech = None,
      collocations = [], wcontext = [], level = ''B2'', wdefinition = [],
      persianTranslation = [], exampleSentence = []\<rparr>"

definition exampleSegment :: storedSegment where
  "exampleSegment =
     \<lparr>segId = ''s1'', index = 0, segTitle = ''Part 1'', content = ''an apple a day'',
      analyzedWords = [exampleWord ''apple''], approvedWordIds = [], segTranslation = None,
      isAnalyzed = True, segArticleId = ''A1''\<rparr>"

definition exampleSettings :: appSettings where
  "exampleSettings =
     \<lparr>analysisModel = ''gemini-2.5-flash'', translationModel = ''gemini-2.5-flash'',
      ttsModel = ''gemini-2.5-flash-preview-tts'', pronunciationModel = ''gemini-2.5-flash'',
      ttsEngine = Gemini, segmentLength = 1200,
      enabledTypes = [Vocabulary, Grammar, Literary, Historical]\<rparr>"

definition exampleLibrary :: store where
  "exampleLibrary =
     \<lparr>articles =
        [\<lparr>artId = ''A1'', artTitle = ''Fruit'',
          artSegments =
            [\<lparr>segId = ''s1'', index = 0, segTitle = ''Part 1'', content = [],
              analyzedWords = [], approvedWordIds = [], segTranslation = None,
              isAnalyzed = True\<rparr>],
          collectionId = Some ''k1'', processedAt = 1\<rparr>],
      segments = [exampleSegment],
      flashcards = [exampleCard ''c1'' ''A1'' ''apple'' ''sib'' 9000 0,
                    exampleCard ''c5'' ''A1'' ''fig'' ''anjir'' 8000 0],
      settings = Some exampleSettings,
      collections = [\<lparr>colId = ''k1'', name = ''Reading'', description = None, coverImage = None\<rparr>]\<rparr>"

text \<open>
  A backup that holds flashcards only: a card \<open>c2\<close> the library does not have and another
  version of its card \<open>c1\<close>; the library's card \<open>c5\<close> is not in it.
\<close>

definition exampleBackup :: backup where
  "exampleBackup =
     \<lparr>version = 1, timestamp = 5, docArticles = None, docSegments = None,
      docFlashcards = Some [exampleCard ''c2'' ''A1'' ''Cherry'' ''gilas'' 11000 1,
                            exampleCard ''c1'' ''A1'' ''apple'' ''sib'' 20000 4],
      docSettings = None, docCollections = None\<rparr>"

definition exampleNanoid :: "nat \<Rightarrow> string" where
  "exampleNanoid i = replicate (Suc i) CHR ''n''"

section \<open>Object store lemmas\<close>

lemma set_put: "set (put key r xs) = insert r {x \<in> set xs. key x \<noteq> key r}"
  by (auto simp: put_def set_insort_key)

lemma find_insort_key_fresh:
  "\<forall>x \<in> set xs. key x \<noteq> key r \<Longrightarrow> find (\<lambda>x. key x = key r) (insort_key key r xs) = Some r"
  by (induction xs) auto

lemma find_insort_key_other:
  "k \<noteq> key r \<Longrightarrow> find (\<lambda>x. key x = k) (insort_key key r xs) = find (\<lambda>x. key x = k) xs"
  by (induction xs) auto

lemma find_filter_other:
  "k \<noteq> k' \<Longrightarrow> find (\<lambda>x. key x = k) (filter (\<lambda>x. key x \<noteq> k') xs) = find (\<lambda>x. key x = k) xs"
  by (induction xs) auto

lemma get_put_same: "get key (key r) (put key r xs) = Some r"
  unfolding get_def put_def by (rule find_insort_key_fresh) simp

lemma get_put_other: "k \<noteq> key r \<Longrightarrow> get key k (put key r xs) = get key k xs"
  unfolding get_def put_def by (simp add: find_insort_key_other find_filter_other)

lemma get_SomeD: "get key k xs = Some r \<Longrightarrow> r \<in> set xs \<and> key r = k"
  unfolding get_def by (auto simp: find_Some_iff)

lemma map_insort_key: "map key (insort_key key r xs) = insort (key r) (map key xs)"
  by (induction xs) auto

lemma wfObjectStore_put: "wfObjectStore key xs \<Longrightarrow> wfObjectStore key (put key r xs)"
proof -
  assume wf: "wfObjectStore key xs"
  let ?ys = "filter (\<lambda>x. key x \<noteq> key r) xs"
  from wf have s: "sorted (map key ?ys)" and d: "distinct (map key ?ys)"
    by (simp_all add: wfObjectStore_def sorted_filter distinct_map_filter)
  have "key r \<notin> set (map key ?ys)" by auto
  with s d show ?thesis
    unfolding wfObjectStore_def put_def map_insort_key
    by (simp add: sorted_insort distinct_insort)
qed

lemma wfObjectStore_putAll: "wfObjectStore key xs \<Longrightarrow> wfObjectStore key (putAll key items xs)"
  by (induction items arbitrary: xs) (simp_all add: wfObjectStore_put)

text \<open>Every operation keeps the store well-formed, and the empty store is.\<close>

lemma wfStore_emptyStore: "wfStore emptyStore"
  by (simp add: wfStore_def wfObjectStore_def emptyStore_def)

lemma wfStore_updateFlashcard: "wfStore st \<Longrightarrow> wfStore (updateFlashcard c st)"
  by (simp add: wfStore_def updateFlashcard_def wfObjectStore_put)

lemma wfStore_addFlashcards: "wfStore st \<Longrightarrow> wfStore (addFlashcards cards st)"
  by (induction cards arbitrary: st) (simp_all add: wfStore_def wfObjectStore_put)

lemma wfStore_updateSegment: "wfStore st \<Longrightarrow> wfStore (updateSegment s st)"
  by (simp add: wfStore_def updateSegment_def wfObjectStore_put)

lemma wfStore_approveWordsForSegment:
  "wfStore st \<Longrightarrow> wfStore (approveWordsForSegment now nanoid aid i lemmas st)"
  by (simp add: approveWordsForSegment_def Let_def wfStore_updateSegment wfStore_addFlashcards
      split: option.splits)

lemma wfStore_addCustomWordToSegment:
  "wfStore st \<Longrightarrow> wfStore (addCustomWordToSegment now nanoid aid i analysis st)"
  by (simp add: addCustomWordToSegment_def Let_def wfStore_updateSegment wfStore_addFlashcards
      del: addFlashcards.simps split: option.splits)

lemmas example_eval =
  exampleStore_def exampleCard_def wfStore_def wfObjectStore_def getFlashcard_def get_def

lemmas query_eval =
  queryFlashcards_def seedCandidates_def getAllFromIndex_def getAll_def matches_def active_def
  searchKeeps_def asciiLower_def asciiLowerChar_def slice_def exampleStore_def exampleCard_def

lemmas library_eval =
  exampleLibrary_def exampleSegment_def exampleSettings_def exampleWord_def exampleCard_def
  wfStore_def wfObjectStore_def

section \<open>Double arithmetic\<close>

lemma ulpOf_small: "a < 9007199254740992 \<Longrightarrow> ulpOf a = 1"
  by (simp add: ulpOf.simps)

lemma ulpOf_double: "9007199254740992 \<le> 2 * a \<Longrightarrow> ulpOf (2 * a) = 2 * ulpOf a"
  by (subst ulpOf.simps) simp

lemma ulpOf_pos: "0 < ulpOf a"
  by (induction a rule: ulpOf.induct) (subst ulpOf.simps, simp)

lemma roundNat_exact: "ulpOf a dvd a \<Longrightarrow> roundNat a = a"
  using ulpOf_pos [of a] by (simp add: roundNat_def Let_def)

text \<open>A number with a significand below \<open>2^53\<close> is a double, whatever its exponent.\<close>

lemma ulpOf_dvd_scaled: "m < 9007199254740992 \<Longrightarrow> ulpOf (m * 2 ^ k) dvd m * 2 ^ k"
proof (induction k)
  case 0
  then show ?case by (simp add: ulpOf_small)
next
  case (Suc k)
  show ?case
  proof (cases "2 * (m * 2 ^ k) < 9007199254740992")
    case True
    then have "ulpOf (2 * (m * 2 ^ k)) = 1" by (rule ulpOf_small)
    then show ?thesis by (simp add: mult.commute mult.left_commute)
  next
    case False
    then have "ulpOf (2 * (m * 2 ^ k)) = 2 * ulpOf (m * 2 ^ k)"
      by (intro ulpOf_double) simp
    moreover have "2 * ulpOf (m * 2 ^ k) dvd 2 * (m * 2 ^ k)"
      using Suc.IH [OF Suc.prems] by (rule mult_dvd_mono [OF dvd_refl])
    ultimately show ?thesis by (simp add: mult.commute mult.left_commute)
  qed
qed

lemma roundToDouble_scaled:
  "0 \<le> m \<Longrightarrow> m < 9007199254740992 \<Longrightarrow> roundToDouble (m * 2 ^ k) = m * 2 ^ k"
proof -
  assume m: "0 \<le> m" "m < 9007199254740992"
  then have "nat (m * 2 ^ k) = nat m * 2 ^ k"
    by (simp add: nat_mult_distrib nat_power_eq)
  moreover have "ulpOf (nat m * 2 ^ k) dvd nat m * 2 ^ k"
    using m by (intro ulpOf_dvd_scaled) simp
  ultimately have "roundNat (nat (m * 2 ^ k)) = nat (m * 2 ^ k)"
    by (simp add: roundNat_exact)
  moreover from m have "\<not> m * 2 ^ k < 0"
    by (simp add: not_less)
  ultimately show ?thesis
    by (simp add: roundToDouble_def)
qed

text \<open>Every integer up to \<open>2^53\<close> in size is a double.\<close>

lemma roundToDouble_safe: "\<bar>x\<bar> \<le> 9007199254740992 \<Longrightarrow> roundToDouble x = x"
proof -
  assume b: "\<bar>x\<bar> \<le> 9007199254740992"
  have nat_exact: "roundNat a = a" if "a \<le> 9007199254740992" for a
  proof (cases "a < 9007199254740992")
    case True
    then show ?thesis by (simp add: roundNat_exact ulpOf_small)
  next
    case False
    with that have "a = 9007199254740992" by simp
    then show ?thesis by (simp add: roundNat_def ulpOf.simps)
  qed
  show ?thesis
  proof (cases "x < 0")
    case True
    with b have "nat (- x) \<le> 9007199254740992" by simp
    from nat_exact [OF this] True show ?thesis by (simp add: roundToDouble_def)
  next
    case False
    with b have "nat x \<le> 9007199254740992" by simp
    from nat_exact [OF this] False show ?thesis by (simp add: roundToDouble_def)
  qed
qed

lemma asDouble_finite:
  "roundToDouble x = x \<Longrightarrow> \<bar>x\<bar> < 2 ^ 1023 \<Longrightarrow> asDouble x = Finite x"
proof -
  assume r: "roundToDouble x = x" and b: "\<bar>x\<bar> < 2 ^ 1023"
  have "(2::int) ^ 1023 < 2 ^ 1024" by (rule power_strict_increasing) simp_all
  with b have "x < 2 ^ 1024" and "- (2 ^ 1024) < x" by linarith+
  with r show ?thesis by (simp add: asDouble_def Let_def not_le)
qed

lemma asDouble_safe: "\<bar>x\<bar> \<le> 9007199254740992 \<Longrightarrow> asDouble x = Finite x"
proof -
  assume b: "\<bar>x\<bar> \<le> 9007199254740992"
  have "(2::int) ^ 53 < 2 ^ 1023" by (rule power_strict_increasing) simp_all
  then have "(9007199254740992::int) < 2 ^ 1023" by simp
  with b have "\<bar>x\<bar> < 2 ^ 1023" by linarith
  with roundToDouble_safe [OF b] show ?thesis by (rule asDouble_finite)
qed

lemma asDouble_scaled:
  assumes "0 \<le> m" and "m < 9007199254740992" and "k \<le> 970"
  shows "asDouble (m * 2 ^ k) = Finite (m * 2 ^ k)"
proof -
  have "m * 2 ^ k < 2 ^ 53 * 2 ^ k"
    using assms(2) by (intro mult_strict_right_mono) simp_all
  also have "\<dots> \<le> 2 ^ 53 * (2::int) ^ 970"
    using assms(3) by (intro mult_left_mono power_increasing) simp_all
  also have "\<dots> = 2 ^ 1023" by (simp add: power_add [symmetric])
  finally have "m * 2 ^ k < 2 ^ 1023" .
  moreover have "0 \<le> m * 2 ^ k" using assms(1) by simp
  ultimately have "\<bar>m * 2 ^ k\<bar> < 2 ^ 1023" by simp
  with roundToDouble_scaled [OF assms(1,2)] show ?thesis by (rule asDouble_finite)
qed

text \<open>The interval of a stage is computed without rounding, up to stage 960.\<close>

lemma interval_exact:
  assumes "n \<le> 960"
  shows "jsTimes (jsTimes (jsTimes (jsTimes (pow2 n) 24) 60) 60) 1000 = Finite (2 ^ n * 86400000)"
proof -
  have a: "(2::int) ^ n * 24 = 3 * 2 ^ (n + 3)"
    and b: "(2::int) ^ n * 24 * 60 = 45 * 2 ^ (n + 5)"
    and c: "(2::int) ^ n * 24 * 60 * 60 = 675 * 2 ^ (n + 7)"
    and d: "(2::int) ^ n * 24 * 60 * 60 * 1000 = 84375 * 2 ^ (n + 10)"
    by (simp_all add: power_add)
  have 1: "asDouble ((2::int) ^ n * 24) = Finite (2 ^ n * 24)"
    unfolding a using assms by (intro asDouble_scaled) simp_all
  have 2: "asDouble ((2::int) ^ n * 24 * 60) = Finite (2 ^ n * 24 * 60)"
    unfolding b using assms by (intro asDouble_scaled) simp_all
  have 3: "asDouble ((2::int) ^ n * 24 * 60 * 60) = Finite (2 ^ n * 24 * 60 * 60)"
    unfolding c using assms by (intro asDouble_scaled) simp_all
  have 4: "asDouble ((2::int) ^ n * 24 * 60 * 60 * 1000) = Finite (2 ^ n * 24 * 60 * 60 * 1000)"
    unfolding d using assms by (intro asDouble_scaled) simp_all
  have "pow2 n = Finite (2 ^ n)" using assms by (simp add: pow2_def)
  then have "jsTimes (jsTimes (jsTimes (jsTimes (pow2 n) 24) 60) 60) 1000 =
      Finite (2 ^ n * 24 * 60 * 60 * 1000)"
    by (simp only: jsTimes_def jsNumber.case 1 2 3 4)
  then show ?thesis by simp
qed


section \<open>Scheduling\<close>

text \<open>What a review stores, as long as the stage stays below 960: the sum is rounded once.\<close>

lemma markCardReviewed_pass_rounded:
  assumes "getFlashcard k st = Some fc" and "3 \<le> quality" and "stage fc + 1 \<le> 960"
  shows "markCardReviewed now k quality st =
           updateFlashcard
             (fc\<lparr>stage := stage fc + 1,
                 nextReview := asDouble (now + 2 ^ (stage fc + 1) * 86400000)\<rparr>) st"
proof -
  from assms(3) have "\<bar>int (stage fc) + 1\<bar> \<le> 9007199254740992" by simp
  then have "roundToDouble (int (stage fc) + 1) = int (stage fc) + 1"
    by (rule roundToDouble_safe)
  then have stage: "nat (roundToDouble (int (stage fc) + 1)) = stage fc + 1" by simp
  show ?thesis
    using assms(1,2) interval_exact [OF assms(3)]
    by (simp add: markCardReviewed_def stage Let_def jsPlus_def)
qed

lemma markCardReviewed_pass:
  assumes "getFlashcard k st = Some fc" and "3 \<le> quality"
    and "\<bar>now\<bar> \<le> 9007199254740992"
    and "now + 2 ^ (stage fc + 1) * 86400000 \<le> 9007199254740992"
  shows "markCardReviewed now k quality st =
           updateFlashcard
             (fc\<lparr>stage := stage fc + 1,
                 nextReview := Finite (now + 2 ^ (stage fc + 1) * 86400000)\<rparr>) st"
proof -
  have small: "stage fc + 1 \<le> 27"
  proof (rule ccontr)
    assume "\<not> stage fc + 1 \<le> 27"
    then have "(2::int) ^ 28 \<le> 2 ^ (stage fc + 1)"
      by (intro power_increasing) simp_all
    then have "(2::int) ^ 28 * 86400000 \<le> 2 ^ (stage fc + 1) * 86400000" by simp
    with assms(3,4) show False by simp
  qed
  have "0 \<le> (2::int) ^ (stage fc + 1) * 86400000" by simp
  with assms(3,4) have "\<bar>now + 2 ^ (stage fc + 1) * 86400000\<bar> \<le> 9007199254740992"
    by linarith
  then have "asDouble (now + 2 ^ (stage fc + 1) * 86400000) =
      Finite (now + 2 ^ (stage fc + 1) * 86400000)"
    by (rule asDouble_safe)
  moreover from small have "stage fc + 1 \<le> 960" by simp
  ultimately show ?thesis
    using markCardReviewed_pass_rounded [OF assms(1,2), of now] by simp
qed


lemma markCardReviewed_updates:
  assumes "getFlashcard k st = Some fc"
  shows "\<exists>s n. markCardReviewed now k quality st =
           updateFlashcard (fc\<lparr>stage := s, nextReview := n\<rparr>) st"
proof (cases "3 \<le> quality")
  case True
  with assms have "markCardReviewed now k quality st =
      updateFlashcard
        (fc\<lparr>stage := nat (roundToDouble (int (stage fc) + 1)),
            nextReview := jsPlus now (jsTimes (jsTimes (jsTimes (jsTimes
              (pow2 (nat (roundToDouble (int (stage fc) + 1)))) 24) 60) 60) 1000)\<rparr>) st"
    by (simp add: markCardReviewed_def Let_def)
  then show ?thesis by blast
next
  case False
  with assms have "markCardReviewed now k quality st =
      updateFlashcard
        (fc\<lparr>stage := 0,
            nextReview := jsPlus now (jsTimes (jsTimes (jsTimes (jsTimes (Finite 0) 24) 60) 60) 1000)\<rparr>) st"
    by (simp add: markCardReviewed_def Let_def)
  then show ?thesis by blast
qed

lemma wfStore_markCardReviewed: "wfStore st \<Longrightarrow> wfStore (markCardReviewed now k quality st)"
proof (cases "getFlashcard k st")
  case None
  assume "wfStore st"
  with None show ?thesis by (simp add: markCardReviewed_def)
next
  case (Some fc)
  assume wf: "wfStore st"
  from markCardReviewed_updates [OF Some, of now quality]
  obtain s n where "markCardReviewed now k quality st =
      updateFlashcard (fc\<lparr>stage := s, nextReview := n\<rparr>) st" by blast
  with wf show ?thesis by (simp add: wfStore_updateFlashcard)
qed






text \<open>From stage 1023 on, \<open>Math.pow\<close> overflows and the review stores \<open>Infinity\<close>.\<close>

lemma markCardReviewed_overflow:
  assumes "getFlashcard k st = Some fc" and "3 \<le> quality" and "stage fc = 1023"
  shows "markCardReviewed now k quality st =
           updateFlashcard (fc\<lparr>stage := 1024, nextReview := Infinity\<rparr>) st"
proof -
  have "roundToDouble 1024 = 1024" by (rule roundToDouble_safe) simp
  with assms show ?thesis
    by (simp add: markCardReviewed_def Let_def pow2_def jsTimes_def jsPlus_def)
qed

section \<open>Queries\<close>

lemma sort_key_same_key: "\<forall>x \<in> set xs. f x = k \<Longrightarrow> sort_key f xs = xs"
  by (induction xs) (auto simp: insort_is_Cons)

lemma getAllFromIndex_only: "getAllFromIndex idx (\<lambda>k. k = a) xs = filter (\<lambda>x. idx x = a) xs"
  unfolding getAllFromIndex_def by (rule sort_key_same_key [where k = a]) simp

lemma matches_articleId: "active (critArticleId cr) = Some a \<Longrightarrow> matches lower cr c \<Longrightarrow> articleId c = a"
  by (simp add: matches_def)

lemma matches_type: "active (critType cr) = Some t \<Longrightarrow> matches lower cr c \<Longrightarrow> typeKey (type c) = t"
  by (simp add: matches_def)

lemma matches_level: "active (critLevel cr) = Some l \<Longrightarrow> matches lower cr c \<Longrightarrow> level c = l"
  by (simp add: matches_def)

lemma filter_seed: "(\<And>x. P x \<Longrightarrow> Q x) \<Longrightarrow> filter P (filter Q xs) = filter P xs"
  by (induction xs) auto

text \<open>The residual filter makes the choice of the seeding index invisible.\<close>

lemma filter_matches_seed:
  "filter (matches lower cr) (seedCandidates cr st) = filter (matches lower cr) (flashcards st)"
proof (cases "active (critArticleId cr)")
  case (Some a)
  then show ?thesis
    by (simp add: seedCandidates_def getAllFromIndex_only del: filter_filter)
       (rule filter_seed, erule matches_articleId [OF Some])
next
  case None
  note noArticle = this
  show ?thesis
  proof (cases "active (critType cr)")
    case (Some t)
    then show ?thesis using noArticle
      by (simp add: seedCandidates_def getAllFromIndex_only del: filter_filter)
         (rule filter_seed, erule matches_type [OF Some])
  next
    case None
    note noType = this
    show ?thesis
    proof (cases "active (critLevel cr)")
      case (Some l)
      then show ?thesis using noArticle noType
        by (simp add: seedCandidates_def getAllFromIndex_only del: filter_filter)
           (rule filter_seed, erule matches_level [OF Some])
    next
      case None
      then show ?thesis using noArticle noType
        by (simp add: seedCandidates_def getAll_def)
    qed
  qed
qed

lemma queryFlashcards_page:
  "queryFlashcards lower collate cr st =
     (let rest = drop (case offset cr of None \<Rightarrow> 0 | Some n \<Rightarrow> n)
                   (sort_key (\<lambda>c. collate (word c)) (filter (matches lower cr) (flashcards st)))
      in case limit cr of None \<Rightarrow> rest | Some n \<Rightarrow> if n = 0 then rest else take n rest)"
  unfolding queryFlashcards_def Let_def slice_def filter_matches_seed
  by (simp split: option.splits)

section \<open>Pagination\<close>

lemma matches_paging: "matches lower (cr\<lparr>limit := l, offset := off\<rparr>) = matches lower cr"
  by (rule ext) (simp add: matches_def)

lemma queryFlashcards_onePage:
  "0 < n \<Longrightarrow> queryFlashcards lower collate (cr\<lparr>limit := Some n, offset := Some off\<rparr>) st =
     take n (drop off (sort_key (\<lambda>c. collate (word c)) (filter (matches lower cr) (flashcards st))))"
  by (simp add: queryFlashcards_page matches_paging)

lemma queryFlashcards_unpaged:
  "queryFlashcards lower collate (cr\<lparr>limit := None, offset := None\<rparr>) st =
     sort_key (\<lambda>c. collate (word c)) (filter (matches lower cr) (flashcards st))"
  by (simp add: queryFlashcards_page matches_paging)

text \<open>From any offset the loop ends and returns the rest of the full result.\<close>

lemma collectPages_drop:
  assumes "0 < n"
  shows "collectPages lower collate cr n off st =
           Some (drop off (sort_key (\<lambda>c. collate (word c)) (filter (matches lower cr) (flashcards st))))"
proof (induction "length (flashcards st) - off" arbitrary: off rule: less_induct)
  case less
  let ?full = "sort_key (\<lambda>c. collate (word c)) (filter (matches lower cr) (flashcards st))"
  have len: "length ?full \<le> length (flashcards st)" by simp
  show ?case
  proof (cases "drop off ?full = []")
    case True
    then show ?thesis
      using assms by (subst collectPages.simps) (simp add: queryFlashcards_onePage)
  next
    case False
    then have "off < length ?full" by simp
    with len have "length (flashcards st) - (off + n) < length (flashcards st) - off"
      using assms by linarith
    from less [OF this]
    have rec: "collectPages lower collate cr n (off + n) st = Some (drop (off + n) ?full)" .
    have "take n (drop off ?full) \<noteq> []" using False assms by simp
    moreover have "take n (drop off ?full) @ drop (off + n) ?full = drop off ?full"
      by (metis add.commute append_take_drop_id drop_drop)
    ultimately show ?thesis
      using assms rec by (subst collectPages.simps) (simp add: queryFlashcards_onePage)
  qed
qed

text \<open>
  C6. For a positive page size, reading the pages at offsets \<open>0\<close>, \<open>L\<close>, \<open>2L\<close>, ... until
  a page is empty ends, and the pages put together are the result of the same query
  without limit and offset: the same records, as often, in the same order.
\<close>

theorem pagination_complete:
  assumes "0 < pageSize"
  shows "collectPages lower collate criteria pageSize 0 st =
           Some (queryFlashcards lower collate (criteria\<lparr>limit := None, offset := None\<rparr>) st)"
  using collectPages_drop [OF assms, of lower collate criteria 0 st]
  by (simp add: queryFlashcards_unpaged)

theorem pagination_complete_witness:
  "(0::nat) < 2 \<and>
   collectPages asciiLower asciiLower
     \<lparr>critArticleId = Some ''A1'', critType = None, critLevel = None, search = None,
      limit = None, offset = None\<rparr> 2 0 exampleStore =
   Some [exampleCard ''c1'' ''A1'' ''apple'' ''sib'' 9000 0,
         exampleCard ''c3'' ''A1'' ''banana'' ''NATO'' 5000 2,
         exampleCard ''c2'' ''A1'' ''Cherry'' ''gilas'' 11000 1]"
proof -
  have pos: "(0::nat) < 2" by simp
  show ?thesis
    using pos
      pagination_complete [OF pos, of asciiLower asciiLower
        "\<lparr>critArticleId = Some ''A1'', critType = None, critLevel = None, search = None,
          limit = None, offset = None\<rparr>" exampleStore]
    by (simp add: query_eval)
qed

section \<open>Search\<close>

text \<open>\<open>includesStr\<close> and \<open>isSubstring\<close> are the same substring test.\<close>

lemma includesStr_iff: "includesStr s q \<longleftrightarrow> (\<exists>ys zs. s = ys @ q @ zs)"
proof (induction s)
  case Nil
  then show ?case by auto
next
  case (Cons c cs)
  show ?case
  proof
    assume "includesStr (c # cs) q"
    then consider "take (length q) (c # cs) = q" | "includesStr cs q" by auto
    then show "\<exists>ys zs. c # cs = ys @ q @ zs"
    proof cases
      case 1
      then have "c # cs = [] @ q @ drop (length q) (c # cs)"
        by (metis append_Nil append_take_drop_id)
      then show ?thesis by blast
    next
      case 2
      with Cons obtain ys zs where "cs = ys @ q @ zs" by blast
      then have "c # cs = (c # ys) @ q @ zs" by simp
      then show ?thesis by blast
    qed
  next
    assume "\<exists>ys zs. c # cs = ys @ q @ zs"
    then obtain ys zs where eq: "c # cs = ys @ q @ zs" by blast
    show "includesStr (c # cs) q"
    proof (cases ys)
      case Nil
      with eq have "take (length q) (c # cs) = q" by simp
      then show ?thesis by simp
    next
      case (Cons y ys')
      with eq have "cs = ys' @ q @ zs" by simp
      with Cons.IH show ?thesis by auto
    qed
  qed
qed

lemma isSubstring_iff: "isSubstring q s \<longleftrightarrow> (\<exists>ys zs. s = ys @ q @ zs)"
proof
  assume "isSubstring q s"
  then obtain i where i: "take (length q) (drop i s) = q"
    by (auto simp: isSubstring_def list_ex_iff)
  have "s = take i s @ drop i s" by simp
  also have "drop i s = take (length q) (drop i s) @ drop (length q) (drop i s)"
    by (rule append_take_drop_id [symmetric])
  finally have "s = take i s @ q @ drop (length q) (drop i s)" using i by simp
  then show "\<exists>ys zs. s = ys @ q @ zs" by blast
next
  assume "\<exists>ys zs. s = ys @ q @ zs"
  then obtain ys zs where eq: "s = ys @ q @ zs" by blast
  then have "length ys \<in> set [0..<Suc (length s)]"
    and "take (length q) (drop (length ys) s) = q"
    by simp_all
  then show "isSubstring q s"
    unfolding isSubstring_def list_ex_iff by (intro bexI [of _ "length ys"])
qed

lemma includesStr_isSubstring: "includesStr s q = isSubstring q s"
  by (simp add: includesStr_iff isSubstring_iff)

lemma isSubstring_Nil: "isSubstring [] s"
  unfolding isSubstring_iff by (rule exI [of _ "[]"], rule exI [of _ s]) simp

lemma searchKeeps_iff:
  "searchKeeps lower s c \<longleftrightarrow>
     includesStr (lower (word c)) (lower s) \<or> includesStr (persianTranslation c) (lower s)"
  by (simp add: searchKeeps_def Let_def)

text \<open>Whatever else \<open>toLowerCase\<close> does, it maps \<open>NATO\<close> to \<open>nato\<close>: the card is dropped.\<close>

lemma searchKeeps_uppercase_translation:
  assumes "lower ''NATO'' = ''nato''" and "lower ''banana'' = ''banana''"
  shows "\<not> searchKeeps lower ''NATO'' (exampleCard ''c3'' ''A1'' ''banana'' ''NATO'' 5000 2)"
  using assms by (simp add: searchKeeps_def exampleCard_def)

text \<open>
  C7. The search filter lowers the query and the headword, but not the translation. A
  card whose translation is \<open>NATO\<close> contains the query \<open>NATO\<close> in its translation, whatever
  the case, and the filter drops it all the same: the lowered query \<open>nato\<close> is looked for
  in the translation as it is stored.
\<close>

theorem search_misses_uppercase_translation:
  "includesIgnoringCase asciiLower
     (persianTranslation (exampleCard ''c3'' ''A1'' ''banana'' ''NATO'' 5000 2)) ''NATO'' \<and>
   \<not> searchKeeps asciiLower ''NATO'' (exampleCard ''c3'' ''A1'' ''banana'' ''NATO'' 5000 2) \<and>
   queryFlashcards asciiLower asciiLower
     \<lparr>critArticleId = None, critType = None, critLevel = None, search = Some ''NATO'',
      limit = None, offset = None\<rparr> exampleStore = []"
proof -
  have "includesIgnoringCase asciiLower
     (persianTranslation (exampleCard ''c3'' ''A1'' ''banana'' ''NATO'' 5000 2)) ''NATO''"
    by (simp add: includesIgnoringCase_def isSubstring_Nil includesStr_isSubstring [symmetric]
        exampleCard_def asciiLower_def asciiLowerChar_def)
  moreover have "\<not> searchKeeps asciiLower ''NATO'' (exampleCard ''c3'' ''A1'' ''banana'' ''NATO'' 5000 2)"
    by (simp add: searchKeeps_def exampleCard_def asciiLower_def asciiLowerChar_def)
  moreover have "queryFlashcards asciiLower asciiLower
     \<lparr>critArticleId = None, critType = None, critLevel = None, search = Some ''NATO'',
      limit = None, offset = None\<rparr> exampleStore = []"
    by (simp add: query_eval)
  ultimately show ?thesis by (intro conjI)
qed

section \<open>The query against the full scan\<close>

lemma matches_satisfiesAll:
  assumes "lower [] = []"
    and "critArticleId cr \<noteq> Some []" and "critType cr \<noteq> Some []" and "critLevel cr \<noteq> Some []"
    and "search cr \<in> {None, Some []} \<or> lower (persianTranslation c) = persianTranslation c"
  shows "matches lower cr c = satisfiesAll lower cr c"
proof -
  have article: "(case active (critArticleId cr) of None \<Rightarrow> True | Some a \<Rightarrow> articleId c = a) =
      (case critArticleId cr of None \<Rightarrow> True | Some a \<Rightarrow> a = ''all'' \<or> articleId c = a)"
    using assms(2) by (cases "critArticleId cr") (auto simp: active_def)
  have type: "(case active (critType cr) of None \<Rightarrow> True | Some t \<Rightarrow> typeKey (type c) = t) =
      (case critType cr of None \<Rightarrow> True | Some t \<Rightarrow> t = ''all'' \<or> typeKey (type c) = t)"
    using assms(3) by (cases "critType cr") (auto simp: active_def)
  have level: "(case active (critLevel cr) of None \<Rightarrow> True | Some l \<Rightarrow> level c = l) =
      (case critLevel cr of None \<Rightarrow> True | Some l \<Rightarrow> l = ''all'' \<or> level c = l)"
    using assms(4) by (cases "critLevel cr") (auto simp: active_def)
  have searchEq: "(case search cr of None \<Rightarrow> True
               | Some s \<Rightarrow> if s = [] then True else searchKeeps lower s c) =
      (case search cr of None \<Rightarrow> True
       | Some s \<Rightarrow> includesIgnoringCase lower (word c) s \<or>
                   includesIgnoringCase lower (persianTranslation c) s)"
  proof (cases "search cr")
    case None
    then show ?thesis by simp
  next
    case (Some s)
    show ?thesis
    proof (cases "s = []")
      case True
      with Some assms(1) show ?thesis
        by (simp add: includesIgnoringCase_def isSubstring_Nil)
    next
      case False
      with Some assms(5) have "lower (persianTranslation c) = persianTranslation c" by simp
      with Some False show ?thesis
        by (simp add: searchKeeps_iff includesIgnoringCase_def includesStr_isSubstring)
    qed
  qed
  show ?thesis
    unfolding matches_def satisfiesAll_def article type level searchEq ..
qed

text \<open>
  C10 (amended). For a criteria object in which no criterion on article, type or level
  is the empty string and the limit is not \<open>0\<close>, and either without a search text or over
  a store whose translations are in lower case, \<open>queryFlashcards\<close> returns what the full scan
  returns, whatever index seeds it: the flashcards that satisfy every given criterion,
  sorted by headword, cut by offset and limit.
\<close>

theorem queryFlashcards_refines_naiveQuery:
  assumes "lower [] = []"
    and "critArticleId criteria \<noteq> Some []" and "critType criteria \<noteq> Some []"
    and "critLevel criteria \<noteq> Some []"
    and "limit criteria \<noteq> Some 0"
    and "search criteria \<in> {None, Some []} \<or>
         (\<forall>c \<in> set (flashcards st). lower (persianTranslation c) = persianTranslation c)"
  shows "queryFlashcards lower collate criteria st = naiveQuery lower collate criteria st"
proof -
  have "filter (matches lower criteria) (flashcards st) =
      filter (satisfiesAll lower criteria) (flashcards st)"
  proof (rule filter_cong [OF refl])
    fix c assume "c \<in> set (flashcards st)"
    with assms(6) have "search criteria \<in> {None, Some []} \<or>
        lower (persianTranslation c) = persianTranslation c" by blast
    with assms(1-4) show "matches lower criteria c = satisfiesAll lower criteria c"
      by (rule matches_satisfiesAll)
  qed
  moreover have "(case limit criteria of None \<Rightarrow> xs | Some n \<Rightarrow> if n = 0 then xs else take n xs) =
      (case limit criteria of None \<Rightarrow> xs | Some n \<Rightarrow> take n xs)" for xs :: "flashcard list"
    using assms(5) by (cases "limit criteria") simp_all
  ultimately show ?thesis
    by (simp add: queryFlashcards_page naiveQuery_def Let_def)
qed

theorem queryFlashcards_refines_naiveQuery_witness:
  "asciiLower [] = [] \<and>
   list_all (\<lambda>c. asciiLower (persianTranslation c) = persianTranslation c) (flashcards exampleDeck) \<and>
   queryFlashcards asciiLower asciiLower
     \<lparr>critArticleId = Some ''A1'', critType = Some ''vocabulary'', critLevel = Some ''B2'',
      search = Some ''AP'', limit = Some 2, offset = Some 1\<rparr> exampleDeck =
     [exampleCard ''d5'' ''A1'' ''Apricot'' ''zardalu'' 9000 0] \<and>
   naiveQuery asciiLower asciiLower
     \<lparr>critArticleId = Some ''A1'', critType = Some ''vocabulary'', critLevel = Some ''B2'',
      search = Some ''AP'', limit = Some 2, offset = Some 1\<rparr> exampleDeck =
     [exampleCard ''d5'' ''A1'' ''Apricot'' ''zardalu'' 9000 0]"
proof -
  let ?cr = "\<lparr>critArticleId = Some ''A1'', critType = Some ''vocabulary'', critLevel = Some ''B2'',
      search = Some ''AP'', limit = Some 2, offset = Some 1\<rparr>"
  have empty: "asciiLower [] = []" by (simp add: asciiLower_def)
  have plain: "list_all (\<lambda>c. asciiLower (persianTranslation c) = persianTranslation c)
      (flashcards exampleDeck)"
    by (simp add: exampleDeck_def exampleCard_def asciiLower_def asciiLowerChar_def)
  then have caseless: "search ?cr \<in> {None, Some []} \<or>
      (\<forall>c \<in> set (flashcards exampleDeck). asciiLower (persianTranslation c) = persianTranslation c)"
    by (simp add: list_all_iff)
  have query: "queryFlashcards asciiLower asciiLower ?cr exampleDeck =
      [exampleCard ''d5'' ''A1'' ''Apricot'' ''zardalu'' 9000 0]"
    by (simp add: queryFlashcards_def seedCandidates_def getAllFromIndex_def getAll_def
        matches_def active_def searchKeeps_def asciiLower_def asciiLowerChar_def slice_def
        exampleDeck_def exampleCard_def)
  have "queryFlashcards asciiLower asciiLower ?cr exampleDeck =
      naiveQuery asciiLower asciiLower ?cr exampleDeck"
    by (rule queryFlashcards_refines_naiveQuery [OF empty _ _ _ _ caseless]) simp_all
  with empty plain query show ?thesis by simp
qed

text \<open>
  C10 as it is stated fails where the code takes a criterion for absent that the scan
  takes for given: an article criterion that is the empty string, which no card matches,
  and a limit of \<open>0\<close>. The card of the example has a translation in lower case.
\<close>

theorem queryFlashcards_falsy_counterexample:
  "queryFlashcards asciiLower asciiLower
     \<lparr>critArticleId = Some [], critType = None, critLevel = None, search = None,
      limit = None, offset = None\<rparr> exampleVeteran \<noteq>
   naiveQuery asciiLower asciiLower
     \<lparr>critArticleId = Some [], critType = None, critLevel = None, search = None,
      limit = None, offset = None\<rparr> exampleVeteran \<and>
   queryFlashcards asciiLower asciiLower
     \<lparr>critArticleId = None, critType = None, critLevel = None, search = None,
      limit = Some 0, offset = None\<rparr> exampleVeteran \<noteq>
   naiveQuery asciiLower asciiLower
     \<lparr>critArticleId = None, critType = None, critLevel = None, search = None,
      limit = Some 0, offset = None\<rparr> exampleVeteran"
  by (simp add: queryFlashcards_def seedCandidates_def getAllFromIndex_def getAll_def
      matches_def active_def slice_def naiveQuery_def satisfiesAll_def
      exampleVeteran_def exampleCard_def)

section \<open>Query by article\<close>

text \<open>
  C2 (amended). For an article id \<open>A\<close> that is neither empty nor \<open>'all'\<close>, with the type
  and level filters absent or \<open>'all'\<close> and no search, limit or offset, \<open>queryFlashcards\<close>
  returns the flashcards of the store whose \<open>articleId\<close> is \<open>A\<close>, each as often as the
  store holds it and no other, in ascending order of the collation keys of their headwords.
\<close>

theorem queryFlashcards_by_article:
  assumes "A \<noteq> []" and "A \<noteq> ''all''"
    and "t \<in> {None, Some ''all''}" and "l \<in> {None, Some ''all''}"
  shows "set (queryFlashcards lower collate
                \<lparr>critArticleId = Some A, critType = t, critLevel = l, search = None,
                 limit = None, offset = None\<rparr> st) =
           {c \<in> set (flashcards st). articleId c = A} \<and>
         mset (queryFlashcards lower collate
                \<lparr>critArticleId = Some A, critType = t, critLevel = l, search = None,
                 limit = None, offset = None\<rparr> st) =
           mset (filter (\<lambda>c. articleId c = A) (flashcards st)) \<and>
         sorted (map (\<lambda>c. collate (word c))
           (queryFlashcards lower collate
                \<lparr>critArticleId = Some A, critType = t, critLevel = l, search = None,
                 limit = None, offset = None\<rparr> st))"
proof -
  let ?cr = "\<lparr>critArticleId = Some A, critType = t, critLevel = l, search = None,
              limit = None, offset = None\<rparr>"
  have "matches lower ?cr = (\<lambda>c. articleId c = A)"
    using assms by (auto simp: matches_def active_def fun_eq_iff)
  then have "queryFlashcards lower collate ?cr st =
      sort_key (\<lambda>c. collate (word c)) (filter (\<lambda>c. articleId c = A) (flashcards st))"
    by (simp add: queryFlashcards_page)
  then show ?thesis
    by simp
qed

theorem queryFlashcards_by_article_witness:
  "''A1'' \<noteq> [] \<and> ''A1'' \<noteq> ''all'' \<and>
   queryFlashcards asciiLower asciiLower
     \<lparr>critArticleId = Some ''A1'', critType = Some ''all'', critLevel = None, search = None,
      limit = None, offset = None\<rparr> exampleStore =
   [exampleCard ''c1'' ''A1'' ''apple'' ''sib'' 9000 0,
    exampleCard ''c3'' ''A1'' ''banana'' ''NATO'' 5000 2,
    exampleCard ''c2'' ''A1'' ''Cherry'' ''gilas'' 11000 1] \<and>
   set (queryFlashcards asciiLower asciiLower
     \<lparr>critArticleId = Some ''A1'', critType = Some ''all'', critLevel = None, search = None,
      limit = None, offset = None\<rparr> exampleStore) =
     {c \<in> set (flashcards exampleStore). articleId c = ''A1''}"
proof -
  have a: "''A1'' \<noteq> []" and b: "''A1'' \<noteq> ''all''" by simp_all
  have c: "Some ''all'' \<in> {None, Some ''all''}" and d: "None \<in> {None, Some ''all''}" by simp_all
  have e: "queryFlashcards asciiLower asciiLower
     \<lparr>critArticleId = Some ''A1'', critType = Some ''all'', critLevel = None, search = None,
      limit = None, offset = None\<rparr> exampleStore =
   [exampleCard ''c1'' ''A1'' ''apple'' ''sib'' 9000 0,
    exampleCard ''c3'' ''A1'' ''banana'' ''NATO'' 5000 2,
    exampleCard ''c2'' ''A1'' ''Cherry'' ''gilas'' 11000 1]"
    by (simp add: query_eval)
  show ?thesis
    using a b e queryFlashcards_by_article [OF a b c d, of asciiLower asciiLower exampleStore]
    by simp
qed

text \<open>
  C2 as it is stated fails at \<open>A = 'all'\<close>: that value switches the article filter off,
  and the query returns cards of other articles.
\<close>

theorem queryFlashcards_all_counterexample:
  "set (queryFlashcards asciiLower asciiLower
     \<lparr>critArticleId = Some ''all'', critType = None, critLevel = None, search = None,
      limit = None, offset = None\<rparr> exampleStore) \<noteq>
   {c \<in> set (flashcards exampleStore). articleId c = ''all''}"
proof -
  have "exampleCard ''c1'' ''A1'' ''apple'' ''sib'' 9000 0 \<in>
     set (queryFlashcards asciiLower asciiLower
     \<lparr>critArticleId = Some ''all'', critType = None, critLevel = None, search = None,
      limit = None, offset = None\<rparr> exampleStore)"
    by (simp add: query_eval)
  moreover have "exampleCard ''c1'' ''A1'' ''apple'' ''sib'' 9000 0 \<notin>
     {c \<in> set (flashcards exampleStore). articleId c = ''all''}"
    by (simp add: exampleCard_def)
  ultimately show ?thesis by blast
qed

section \<open>Session selection\<close>

lemma residual_filters:
  "(case active (critArticleId filters) of None \<Rightarrow> ys | Some a \<Rightarrow> filter (\<lambda>c. articleId c = a) ys) =
     filter (\<lambda>c. active (critArticleId filters) = None \<or> active (critArticleId filters) = Some (articleId c)) ys"
  "(case active (critType filters) of None \<Rightarrow> xs | Some t \<Rightarrow> filter (\<lambda>c. typeKey (type c) = t) xs) =
     filter (\<lambda>c. active (critType filters) = None \<or> active (critType filters) = Some (typeKey (type c))) xs"
  "(case active (critLevel filters) of None \<Rightarrow> zs | Some l \<Rightarrow> filter (\<lambda>c. level c = l) zs) =
     filter (\<lambda>c. active (critLevel filters) = None \<or> active (critLevel filters) = Some (level c)) zs"
  by (auto split: option.splits intro: filter_cong)

lemma getCardsForSession_due:
  "getCardsForSession lower collate shuffle now ModeDue filters n st =
     shuffle (filter (residual filters)
       (take n (sort_key nextReview (filter (\<lambda>c. nextReview c \<le> Finite now) (flashcards st)))))"
  unfolding getCardsForSession_def Let_def residual_filters
  by (auto simp: getDueFlashcards_def getAllFromIndex_def slice_def residual_def intro!: arg_cong [where f = shuffle] filter_cong)

lemma getCardsForSession_new:
  "getCardsForSession lower collate shuffle now ModeNew filters n st =
     shuffle (filter (residual filters) (take n (filter (\<lambda>c. stage c = 0) (flashcards st))))"
  unfolding getCardsForSession_def Let_def residual_filters
  by (auto simp: getNewFlashcards_def getAllFromIndex_only slice_def residual_def intro!: arg_cong [where f = shuffle] filter_cong)

text \<open>
  C3. Whatever rearrangement the shuffle makes, a \<open>due\<close> session holds only cards with
  \<open>nextReview \<le> now\<close> and at most \<open>n\<close> of them, a \<open>new\<close> session only cards at stage \<open>0\<close> and
  at most \<open>n\<close> of them; each is a rearrangement of the residual filter applied to the first
  \<open>n\<close> candidates, so the pool is cut to \<open>n\<close> before the filters run.
\<close>

theorem getCardsForSession_due_new:
  assumes "\<And>xs. mset (shuffle xs) = mset xs"
  shows "(\<forall>c \<in> set (getCardsForSession lower collate shuffle now ModeDue filters n st). nextReview c \<le> Finite now) \<and>
         length (getCardsForSession lower collate shuffle now ModeDue filters n st) \<le> n \<and>
         mset (getCardsForSession lower collate shuffle now ModeDue filters n st) =
           mset (filter (residual filters)
             (take n (sort_key nextReview (filter (\<lambda>c. nextReview c \<le> Finite now) (flashcards st))))) \<and>
         (\<forall>c \<in> set (getCardsForSession lower collate shuffle now ModeNew filters n st). stage c = 0) \<and>
         length (getCardsForSession lower collate shuffle now ModeNew filters n st) \<le> n \<and>
         mset (getCardsForSession lower collate shuffle now ModeNew filters n st) =
           mset (filter (residual filters) (take n (filter (\<lambda>c. stage c = 0) (flashcards st))))"
proof -
  have set_shuffle: "set (shuffle xs) = set xs" for xs
    using assms [of xs] by (rule mset_eq_setD)
  have length_shuffle: "length (shuffle xs) = length xs" for xs
    using assms [of xs] by (rule mset_eq_length)
  define due where
    "due = take n (sort_key nextReview (filter (\<lambda>c. nextReview c \<le> Finite now) (flashcards st)))"
  define new where "new = take n (filter (\<lambda>c. stage c = 0) (flashcards st))"
  have dueEq: "getCardsForSession lower collate shuffle now ModeDue filters n st =
      shuffle (filter (residual filters) due)"
    unfolding due_def by (rule getCardsForSession_due)
  have newEq: "getCardsForSession lower collate shuffle now ModeNew filters n st =
      shuffle (filter (residual filters) new)"
    unfolding new_def by (rule getCardsForSession_new)
  have due_only: "nextReview c \<le> Finite now" if "c \<in> set due" for c
  proof -
    from that have "c \<in> set (sort_key nextReview (filter (\<lambda>c. nextReview c \<le> Finite now) (flashcards st)))"
      unfolding due_def by (rule in_set_takeD)
    then show ?thesis by simp
  qed
  have new_only: "stage c = 0" if "c \<in> set new" for c
  proof -
    from that have "c \<in> set (filter (\<lambda>c. stage c = 0) (flashcards st))"
      unfolding new_def by (rule in_set_takeD)
    then show ?thesis by simp
  qed
  have due_len: "length (filter (residual filters) due) \<le> n"
    by (rule order_trans [OF length_filter_le]) (simp add: due_def)
  have new_len: "length (filter (residual filters) new) \<le> n"
    by (rule order_trans [OF length_filter_le]) (simp add: new_def)
  have 1: "\<forall>c \<in> set (shuffle (filter (residual filters) due)). nextReview c \<le> Finite now"
    unfolding set_shuffle using due_only by simp
  have 2: "length (shuffle (filter (residual filters) due)) \<le> n"
    unfolding length_shuffle by (rule due_len)
  have 4: "\<forall>c \<in> set (shuffle (filter (residual filters) new)). stage c = 0"
    unfolding set_shuffle using new_only by simp
  have 5: "length (shuffle (filter (residual filters) new)) \<le> n"
    unfolding length_shuffle by (rule new_len)
  show ?thesis
    unfolding dueEq newEq due_def [symmetric] new_def [symmetric]
    using 1 2 4 5 assms by (intro conjI)
qed

theorem getCardsForSession_due_new_witness:
  "getCardsForSession asciiLower asciiLower rev 10000 ModeDue
     \<lparr>critArticleId = Some ''A1'', critType = Some ''all'', critLevel = Some ''all'',
      search = None, limit = None, offset = None\<rparr> 20 exampleStore =
     [exampleCard ''c1'' ''A1'' ''apple'' ''sib'' 9000 0,
      exampleCard ''c3'' ''A1'' ''banana'' ''NATO'' 5000 2] \<and>
   length (getCardsForSession asciiLower asciiLower rev 10000 ModeDue
     \<lparr>critArticleId = Some ''A1'', critType = Some ''all'', critLevel = Some ''all'',
      search = None, limit = None, offset = None\<rparr> 20 exampleStore) \<le> 20 \<and>
   getCardsForSession asciiLower asciiLower rev 10000 ModeNew
     \<lparr>critArticleId = Some ''A1'', critType = Some ''all'', critLevel = Some ''all'',
      search = None, limit = None, offset = None\<rparr> 20 exampleStore =
     [exampleCard ''c1'' ''A1'' ''apple'' ''sib'' 9000 0]"
proof -
  let ?filters = "\<lparr>critArticleId = Some ''A1'', critType = Some ''all'', critLevel = Some ''all'',
      search = None, limit = None, offset = None\<rparr>"
  have perm: "mset (rev xs) = mset xs" for xs :: "flashcard list" by simp
  have pool: "getDueFlashcards 10000 20 exampleStore =
      [exampleCard ''c3'' ''A1'' ''banana'' ''NATO'' 5000 2,
       exampleCard ''c4'' ''A2'' ''date'' ''khorma'' 7000 0,
       exampleCard ''c1'' ''A1'' ''apple'' ''sib'' 9000 0]"
    by (simp add: getDueFlashcards_def getAllFromIndex_def slice_def exampleStore_def exampleCard_def)
  have due: "getCardsForSession asciiLower asciiLower rev 10000 ModeDue ?filters 20 exampleStore =
      [exampleCard ''c1'' ''A1'' ''apple'' ''sib'' 9000 0,
       exampleCard ''c3'' ''A1'' ''banana'' ''NATO'' 5000 2]"
    by (simp add: getCardsForSession_def pool active_def) (simp add: exampleCard_def)
  have fresh: "getNewFlashcards 20 exampleStore =
      [exampleCard ''c1'' ''A1'' ''apple'' ''sib'' 9000 0,
       exampleCard ''c4'' ''A2'' ''date'' ''khorma'' 7000 0]"
    by (simp add: getNewFlashcards_def getAllFromIndex_def slice_def exampleStore_def exampleCard_def)
  have new: "getCardsForSession asciiLower asciiLower rev 10000 ModeNew ?filters 20 exampleStore =
      [exampleCard ''c1'' ''A1'' ''apple'' ''sib'' 9000 0]"
    by (simp add: getCardsForSession_def fresh active_def) (simp add: exampleCard_def)
  have "length (getCardsForSession asciiLower asciiLower rev 10000 ModeDue ?filters 20 exampleStore) \<le> 20"
    using getCardsForSession_due_new [of rev asciiLower asciiLower 10000 ?filters 20 exampleStore, OF perm]
    by (elim conjE)
  with due new show ?thesis by (intro conjI)
qed

section \<open>Backup and restore\<close>

lemma find_append_case:
  "find P (xs @ ys) = (case find P xs of Some x \<Rightarrow> Some x | None \<Rightarrow> find P ys)"
  by (induction xs) auto

lemma get_putAll:
  "get key k (putAll key items xs) =
     (case find (\<lambda>x. key x = k) (rev items) of Some d \<Rightarrow> Some d | None \<Rightarrow> get key k xs)"
proof (induction items arbitrary: xs)
  case Nil
  then show ?case by simp
next
  case (Cons item items)
  show ?case
  proof (cases "find (\<lambda>x. key x = k) (rev items)")
    case (Some d)
    then show ?thesis by (simp add: Cons.IH find_append_case)
  next
    case None
    then show ?thesis
      by (cases "key item = k") (auto simp: Cons.IH find_append_case get_put_same get_put_other)
  qed
qed

lemma putAll_keeps:
  "r \<in> set xs \<Longrightarrow> key r \<notin> set (map key items) \<Longrightarrow> r \<in> set (putAll key items xs)"
  by (induction items arbitrary: xs) (auto simp: set_put)

lemma putAll_sources: "set (putAll key items xs) \<subseteq> set xs \<union> set items"
proof (induction items arbitrary: xs)
  case Nil
  then show ?case by simp
next
  case (Cons item items)
  have "set (putAll key items (put key item xs)) \<subseteq> set (put key item xs) \<union> set items"
    by (rule Cons.IH)
  also have "\<dots> \<subseteq> set xs \<union> set (item # items)"
    by (auto simp: set_put)
  finally show ?case by simp
qed

lemma insort_key_snoc:
  "\<forall>x \<in> set xs. key x < key r \<Longrightarrow> insort_key key r xs = xs @ [r]"
  by (induction xs) auto

lemma put_snoc:
  assumes "\<forall>x \<in> set xs. key x < key r"
  shows "put key r xs = xs @ [r]"
proof -
  have "filter (\<lambda>x. key x \<noteq> key r) xs = xs"
    using assms by (auto simp: filter_id_conv)
  then show ?thesis
    unfolding put_def using assms by (simp add: insort_key_snoc)
qed

lemma putAll_rebuild:
  "wfObjectStore key (acc @ items) \<Longrightarrow> putAll key items acc = acc @ items"
proof (induction items arbitrary: acc)
  case Nil
  then show ?case by simp
next
  case (Cons item items)
  from Cons.prems have le: "\<forall>x \<in> set acc. key x \<le> key item"
    by (simp add: wfObjectStore_def sorted_append)
  from Cons.prems have "key item \<notin> key ` set acc"
    by (auto simp: wfObjectStore_def)
  then have "\<forall>x \<in> set acc. key x \<noteq> key item"
    by (metis imageI)
  with le have "\<forall>x \<in> set acc. key x < key item"
    by (simp add: order_less_le)
  then have "put key item acc = acc @ [item]" by (rule put_snoc)
  moreover from Cons.prems have "wfObjectStore key ((acc @ [item]) @ items)" by simp
  ultimately show ?case using Cons.IH [of "acc @ [item]"] by simp
qed

lemma putAll_empty: "wfObjectStore key xs \<Longrightarrow> putAll key xs [] = xs"
  using putAll_rebuild [of key "[]" xs] by simp

text \<open>
  C4. Importing the export of a store into the empty store gives the store back: the
  same articles, segments, flashcards and collections, and the same settings record.
\<close>

theorem import_export_roundtrip:
  assumes "wfStore st"
  shows "importDatabase (exportDatabase now st) emptyStore = st"
proof (cases st)
  case (fields as ss fs se cs)
  with assms have "putAll artId as [] = as" "putAll segId ss [] = ss"
      "putAll cardId fs [] = fs" "putAll colId cs [] = cs"
    by (simp_all add: wfStore_def putAll_empty)
  with fields show ?thesis
    by (simp add: importDatabase_def exportDatabase_def emptyStore_def getAll_def Let_def
        split: option.splits)
qed

theorem import_export_roundtrip_witness:
  "wfStore exampleLibrary \<and>
   importDatabase (exportDatabase 5 exampleLibrary) emptyStore = exampleLibrary"
proof -
  have wf: "wfStore exampleLibrary" by (simp add: library_eval)
  with import_export_roundtrip [OF wf, of 5] show ?thesis by simp
qed

lemma putAll_origin:
  "r \<in> set (putAll key items xs) \<Longrightarrow>
     (case find (\<lambda>x. key x = key r) (rev items) of Some d \<Rightarrow> r = d | None \<Rightarrow> r \<in> set xs)"
proof (induction items arbitrary: xs)
  case Nil
  then show ?case by simp
next
  case (Cons item items)
  from Cons.prems have "r \<in> set (putAll key items (put key item xs))" by simp
  from Cons.IH [OF this]
  have ih: "case find (\<lambda>x. key x = key r) (rev items) of
              Some d \<Rightarrow> r = d | None \<Rightarrow> r \<in> set (put key item xs)" .
  show ?case
  proof (cases "find (\<lambda>x. key x = key r) (rev items)")
    case (Some d)
    with ih show ?thesis by (simp add: find_append_case)
  next
    case None
    with ih have "r = item \<or> (r \<in> set xs \<and> key r \<noteq> key item)"
      by (auto simp: set_put)
    with None show ?thesis
      by (auto simp: find_append_case)
  qed
qed

lemma get_putAll_imported:
  "d \<in> set items \<Longrightarrow>
     get key (key d) (putAll key items xs) = find (\<lambda>x. key x = key d) (rev items)"
proof -
  assume "d \<in> set items"
  then have "find (\<lambda>x. key x = key d) (rev items) \<noteq> None"
    by (auto simp: find_None_iff)
  then show ?thesis
    by (auto simp: get_putAll)
qed

lemma mergeOf_putAll:
  "mergeOf key imported stored (case imported of None \<Rightarrow> stored | Some items \<Rightarrow> putAll key items stored)"
proof (cases imported)
  case None
  then show ?thesis by (simp add: mergeOf_def)
next
  case (Some items)
  have "\<forall>r \<in> set stored. key r \<notin> set (map key items) \<longrightarrow> r \<in> set (putAll key items stored)"
    using putAll_keeps [of _ stored key items] by blast
  moreover have "\<forall>d \<in> set items.
      get key (key d) (putAll key items stored) = find (\<lambda>x. key x = key d) (rev items)"
    using get_putAll_imported [of _ items key stored] by blast
  moreover have "\<forall>r \<in> set (putAll key items stored).
      case find (\<lambda>x. key x = key r) (rev items) of Some d \<Rightarrow> r = d | None \<Rightarrow> r \<in> set stored"
    using putAll_origin [of _ key items stored] by blast
  ultimately show ?thesis
    using Some by (simp add: mergeOf_def)
qed

lemma importDatabase_fields:
  "articles (importDatabase data st) =
     (case docArticles data of None \<Rightarrow> articles st | Some items \<Rightarrow> putAll artId items (articles st))"
  "segments (importDatabase data st) =
     (case docSegments data of None \<Rightarrow> segments st | Some items \<Rightarrow> putAll segId items (segments st))"
  "flashcards (importDatabase data st) =
     (case docFlashcards data of None \<Rightarrow> flashcards st | Some items \<Rightarrow> putAll cardId items (flashcards st))"
  "collections (importDatabase data st) =
     (case docCollections data of None \<Rightarrow> collections st | Some items \<Rightarrow> putAll colId items (collections st))"
  "settings (importDatabase data st) =
     (case docSettings data of None \<Rightarrow> settings st | Some s \<Rightarrow> Some s)"
  by (simp_all add: importDatabase_def Let_def split: option.splits)

lemma wfObjectStore_import:
  "wfObjectStore key xs \<Longrightarrow>
     wfObjectStore key (case imported of None \<Rightarrow> xs | Some items \<Rightarrow> putAll key items xs)"
  by (cases imported) (simp_all add: wfObjectStore_putAll)

text \<open>
  C5. \<open>importDatabase\<close> merges: for each of the four keyed object stores the result is the
  merge of the document's array into the store (\<open>mergeOf\<close>: records under keys the array
  does not hold survive, a key of the array is answered by the imported record, a store
  whose array is absent is untouched); the settings record is replaced when the document
  has one and kept otherwise. The result is again a well-formed store.
\<close>

theorem importDatabase_merges:
  assumes "wfStore st"
  shows "wfStore (importDatabase data st) \<and>
         mergeOf artId (docArticles data) (articles st) (articles (importDatabase data st)) \<and>
         mergeOf segId (docSegments data) (segments st) (segments (importDatabase data st)) \<and>
         mergeOf cardId (docFlashcards data) (flashcards st) (flashcards (importDatabase data st)) \<and>
         mergeOf colId (docCollections data) (collections st) (collections (importDatabase data st)) \<and>
         settings (importDatabase data st) =
           (case docSettings data of None \<Rightarrow> settings st | Some s \<Rightarrow> Some s)"
proof -
  have "wfStore (importDatabase data st)"
    using assms unfolding wfStore_def importDatabase_fields
    by (simp add: wfObjectStore_import)
  then show ?thesis
    unfolding importDatabase_fields by (simp add: mergeOf_putAll)
qed

theorem importDatabase_merges_witness:
  "wfStore exampleLibrary \<and>
   wfStore (importDatabase exampleBackup exampleLibrary) \<and>
   flashcards (importDatabase exampleBackup exampleLibrary) =
     [exampleCard ''c1'' ''A1'' ''apple'' ''sib'' 20000 4,
      exampleCard ''c2'' ''A1'' ''Cherry'' ''gilas'' 11000 1,
      exampleCard ''c5'' ''A1'' ''fig'' ''anjir'' 8000 0] \<and>
   segments (importDatabase exampleBackup exampleLibrary) = segments exampleLibrary \<and>
   settings (importDatabase exampleBackup exampleLibrary) = settings exampleLibrary"
proof -
  have wf: "wfStore exampleLibrary" by (simp add: library_eval)
  have cards: "flashcards (importDatabase exampleBackup exampleLibrary) =
     [exampleCard ''c1'' ''A1'' ''apple'' ''sib'' 20000 4,
      exampleCard ''c2'' ''A1'' ''Cherry'' ''gilas'' 11000 1,
      exampleCard ''c5'' ''A1'' ''fig'' ''anjir'' 8000 0]"
    by (simp add: importDatabase_fields exampleBackup_def exampleLibrary_def put_def exampleCard_def)
  from importDatabase_merges [OF wf, of exampleBackup]
  have "wfStore (importDatabase exampleBackup exampleLibrary)"
    and "mergeOf segId (docSegments exampleBackup) (segments exampleLibrary)
           (segments (importDatabase exampleBackup exampleLibrary))"
    and "settings (importDatabase exampleBackup exampleLibrary) =
           (case docSettings exampleBackup of None \<Rightarrow> settings exampleLibrary | Some s \<Rightarrow> Some s)"
    by blast+
  then show ?thesis
    using wf cards by (simp add: mergeOf_def exampleBackup_def)
qed

section \<open>Frame of a review\<close>

lemma put_replace:
  "wfObjectStore key xs \<Longrightarrow> r \<in> set xs \<Longrightarrow> key r' = key r \<Longrightarrow>
     put key r' xs = map (\<lambda>c. if key c = key r then r' else c) xs"
proof (induction xs)
  case Nil
  then show ?case by simp
next
  case (Cons x xs)
  from Cons.prems(1) have wf: "wfObjectStore key xs"
    and le: "\<forall>y \<in> set xs. key x \<le> key y"
    and notin: "key x \<notin> key ` set xs"
    by (auto simp: wfObjectStore_def)
  from notin have fresh: "\<forall>y \<in> set xs. key y \<noteq> key x"
    by (metis imageI)
  show ?case
  proof (cases "key x = key r")
    case True
    with fresh have same: "filter (\<lambda>c. key c \<noteq> key r') xs = xs"
      using Cons.prems(3) by (auto simp: filter_id_conv)
    from True le Cons.prems(3) have "\<forall>y \<in> set xs. key r' \<le> key y" by simp
    then have "insort_key key r' xs = r' # xs" by (rule insort_is_Cons)
    moreover from True fresh have "map (\<lambda>c. if key c = key r then r' else c) xs = xs"
      by (auto simp: map_idI)
    ultimately show ?thesis
      using True same Cons.prems(3) by (simp add: put_def)
  next
    case False
    with Cons.prems(2) have mem: "r \<in> set xs" by auto
    with le False have "key x < key r" by (auto simp: order_less_le)
    then have "\<not> key r' \<le> key x" using Cons.prems(3) by simp
    moreover have "put key r' xs = map (\<lambda>c. if key c = key r then r' else c) xs"
      using wf mem Cons.prems(3) by (rule Cons.IH)
    ultimately show ?thesis
      using False Cons.prems(3) by (simp add: put_def)
  qed
qed

lemma wf_get_unique:
  "wfObjectStore key xs \<Longrightarrow> get key k xs = Some r \<Longrightarrow> c \<in> set xs \<Longrightarrow> key c = k \<Longrightarrow> c = r"
proof -
  assume wf: "wfObjectStore key xs" and g: "get key k xs = Some r"
    and c: "c \<in> set xs" and k: "key c = k"
  from g have "r \<in> set xs" and "key r = k" by (auto dest: get_SomeD)
  moreover from wf have "inj_on key (set xs)"
    by (simp add: wfObjectStore_def distinct_map)
  ultimately show ?thesis using c k by (auto dest: inj_onD)
qed

text \<open>
  C8. A review of a stored card leaves the articles, segments, settings and collections
  as they were, and the flashcards too, but for the reviewed card, of which only \<open>stage\<close>
  and \<open>nextReview\<close> get new values.
\<close>

theorem markCardReviewed_frame:
  assumes "wfStore st" and "getFlashcard k st = Some fc"
  shows "\<exists>s n. markCardReviewed now k quality st =
           st\<lparr>flashcards :=
                map (\<lambda>c. if cardId c = k then c\<lparr>stage := s, nextReview := n\<rparr> else c)
                  (flashcards st)\<rparr>"
proof -
  from assms(1) have wf: "wfObjectStore cardId (flashcards st)"
    by (simp add: wfStore_def)
  from assms(2) have mem: "fc \<in> set (flashcards st)" and key: "cardId fc = k"
    unfolding getFlashcard_def by (auto dest: get_SomeD)
  from markCardReviewed_updates [OF assms(2), of now quality]
  have "\<exists>s n. markCardReviewed now k quality st =
      updateFlashcard (fc\<lparr>stage := s, nextReview := n\<rparr>) st" .
  then obtain s n where run: "markCardReviewed now k quality st =
      updateFlashcard (fc\<lparr>stage := s, nextReview := n\<rparr>) st"
    by blast
  have "put cardId (fc\<lparr>stage := s, nextReview := n\<rparr>) (flashcards st) =
      map (\<lambda>c. if cardId c = cardId fc then fc\<lparr>stage := s, nextReview := n\<rparr> else c) (flashcards st)"
    using wf mem by (rule put_replace) simp
  also have "\<dots> = map (\<lambda>c. if cardId c = k then c\<lparr>stage := s, nextReview := n\<rparr> else c) (flashcards st)"
  proof (rule map_cong [OF refl])
    fix c assume c: "c \<in> set (flashcards st)"
    from assms(2) have "get cardId k (flashcards st) = Some fc"
      by (simp add: getFlashcard_def)
    from wf_get_unique [OF wf this c]
    have "cardId c = k \<Longrightarrow> c = fc" .
    then show "(if cardId c = cardId fc then fc\<lparr>stage := s, nextReview := n\<rparr> else c) =
        (if cardId c = k then c\<lparr>stage := s, nextReview := n\<rparr> else c)"
      using key by auto
  qed
  finally show ?thesis
    using run by (auto simp: updateFlashcard_def)
qed

theorem markCardReviewed_frame_witness:
  "wfStore exampleStore \<and>
   getFlashcard ''c3'' exampleStore = Some (exampleCard ''c3'' ''A1'' ''banana'' ''NATO'' 5000 2) \<and>
   markCardReviewed 10000 ''c3'' 5 exampleStore =
     exampleStore\<lparr>flashcards :=
       [exampleCard ''c1'' ''A1'' ''apple'' ''sib'' 9000 0,
        exampleCard ''c2'' ''A1'' ''Cherry'' ''gilas'' 11000 1,
        exampleCard ''c3'' ''A1'' ''banana'' ''NATO'' 691210000 3,
        exampleCard ''c4'' ''A2'' ''date'' ''khorma'' 7000 0]\<rparr>"
proof -
  have wf: "wfStore exampleStore" by (simp add: example_eval)
  have stored: "getFlashcard ''c3'' exampleStore =
      Some (exampleCard ''c3'' ''A1'' ''banana'' ''NATO'' 5000 2)"
    by (simp add: example_eval)
  from markCardReviewed_frame [OF wf stored, of 10000 5]
  obtain s n where frame: "markCardReviewed 10000 ''c3'' 5 exampleStore =
      exampleStore\<lparr>flashcards :=
        map (\<lambda>c. if cardId c = ''c3'' then c\<lparr>stage := s, nextReview := n\<rparr> else c)
          (flashcards exampleStore)\<rparr>"
    by blast
  have run: "markCardReviewed 10000 ''c3'' 5 exampleStore =
      updateFlashcard (exampleCard ''c3'' ''A1'' ''banana'' ''NATO'' 691210000 3) exampleStore"
    using markCardReviewed_pass [OF stored, of 5 10000] by (simp add: exampleCard_def)
  have "updateFlashcard (exampleCard ''c3'' ''A1'' ''banana'' ''NATO'' 691210000 3) exampleStore =
     exampleStore\<lparr>flashcards :=
       [exampleCard ''c1'' ''A1'' ''apple'' ''sib'' 9000 0,
        exampleCard ''c2'' ''A1'' ''Cherry'' ''gilas'' 11000 1,
        exampleCard ''c3'' ''A1'' ''banana'' ''NATO'' 691210000 3,
        exampleCard ''c4'' ''A2'' ''date'' ''khorma'' 7000 0]\<rparr>"
    by (simp add: updateFlashcard_def put_def exampleStore_def exampleCard_def)
  with wf stored run frame show ?thesis by simp
qed

section \<open>Approved words\<close>

lemma segments_addFlashcards: "segments (addFlashcards cards st) = segments st"
  by (induction cards arbitrary: st) simp_all

lemma find_SomeD: "find P xs = Some x \<Longrightarrow> x \<in> set xs \<and> P x"
  by (induction xs) (auto split: if_splits)

lemma getSegment_mem: "getSegment aid i st = Some segment \<Longrightarrow> segment \<in> set (segments st)"
  unfolding getSegment_def getAllFromIndex_def
  by (drule find_SomeD) simp

lemma segmentsInv_updateSegment:
  "list_all approvedAreAnalyzed (segments st) \<Longrightarrow> approvedAreAnalyzed segment \<Longrightarrow>
     segmentsInv (updateSegment segment st)"
  by (auto simp: segmentsInv_def updateSegment_def list_all_iff set_put)

lemma segmentsInv_addFlashcards: "segmentsInv (addFlashcards cards st) = segmentsInv st"
  by (simp add: segmentsInv_def segments_addFlashcards)

lemma segmentsInv_approve:
  assumes "segmentsInv st"
    and "selectionFromSegment (ApproveWords now nanoid aid i lemmas) st"
  shows "segmentsInv (approveWordsForSegment now nanoid aid i lemmas st)"
proof (cases "getSegment aid i st")
  case None
  with assms(1) show ?thesis by (simp add: approveWordsForSegment_def)
next
  case (Some segment)
  with assms(2) have "approvedAreAnalyzed (segment\<lparr>approvedWordIds := lemmas\<rparr>)"
    by (simp add: approvedAreAnalyzed_def)
  moreover have "list_all approvedAreAnalyzed (segments (addFlashcards cards st))" for cards
    using assms(1) by (simp add: segmentsInv_def segments_addFlashcards)
  ultimately show ?thesis
    using Some by (simp add: approveWordsForSegment_def Let_def segmentsInv_updateSegment)
qed

lemma segmentsInv_addCustom:
  assumes "segmentsInv st"
  shows "segmentsInv (addCustomWordToSegment now nanoid aid i analysis st)"
proof (cases "getSegment aid i st")
  case None
  with assms show ?thesis by (simp add: addCustomWordToSegment_def)
next
  case (Some segment)
  then have "segment \<in> set (segments st)" by (rule getSegment_mem)
  with assms have "approvedAreAnalyzed segment"
    by (simp add: segmentsInv_def list_all_iff)
  then have "approvedAreAnalyzed
      (segment\<lparr>analyzedWords := analyzedWords segment @ [analysis],
               approvedWordIds := approvedWordIds segment @ [wlemma analysis]\<rparr>)"
    by (auto simp: approvedAreAnalyzed_def)
  with assms have "segmentsInv (updateSegment
      (segment\<lparr>analyzedWords := analyzedWords segment @ [analysis],
               approvedWordIds := approvedWordIds segment @ [wlemma analysis]\<rparr>) st)"
    by (simp add: segmentsInv_def [of st] segmentsInv_updateSegment)
  with assms Some show ?thesis
    by (simp add: addCustomWordToSegment_def Let_def segmentsInv_def segments_addFlashcards
        del: addFlashcards.simps)
qed

text \<open>
  C9 (amended). When every stored segment has its approved lemmas among the lemmas of
  its analysed words, and every \<open>approveWordsForSegment\<close> of a sequence is handed lemmas
  of analysed words of the segment it addresses, the same holds of every stored segment
  after the sequence.
\<close>

theorem approved_words_are_analyzed:
  assumes "segmentsInv st" and "selectionsFromSegments ops st"
  shows "segmentsInv (runOps ops st)"
  using assms
proof (induction ops arbitrary: st)
  case Nil
  then show ?case by simp
next
  case (Cons x xs)
  from Cons.prems have "segmentsInv (applyOp x st)"
    by (cases x) (simp_all add: segmentsInv_approve segmentsInv_addCustom)
  moreover from Cons.prems have "selectionsFromSegments xs (applyOp x st)" by simp
  ultimately show ?case by (simp add: Cons.IH)
qed

lemma exampleLibrary_segment: "getSegment ''A1'' 0 exampleLibrary = Some exampleSegment"
  by (simp add: getSegment_def getAllFromIndex_def exampleLibrary_def exampleSegment_def)

lemma exampleLibrary_inv: "segmentsInv exampleLibrary"
  by (simp add: segmentsInv_def approvedAreAnalyzed_def exampleLibrary_def exampleSegment_def)

theorem approved_words_are_analyzed_witness:
  "segmentsInv exampleLibrary \<and>
   selectionsFromSegments
     [ApproveWords 10000 exampleNanoid ''A1'' 0 [''apple''],
      AddCustomWord 10001 exampleNanoid ''A1'' 0 (exampleWord ''pear'')] exampleLibrary \<and>
   segmentsInv (runOps
     [ApproveWords 10000 exampleNanoid ''A1'' 0 [''apple''],
      AddCustomWord 10001 exampleNanoid ''A1'' 0 (exampleWord ''pear'')] exampleLibrary)"
proof -
  have sel: "selectionsFromSegments
     [ApproveWords 10000 exampleNanoid ''A1'' 0 [''apple''],
      AddCustomWord 10001 exampleNanoid ''A1'' 0 (exampleWord ''pear'')] exampleLibrary"
    by (simp add: exampleLibrary_segment) (simp add: exampleSegment_def exampleWord_def)
  from approved_words_are_analyzed [OF exampleLibrary_inv sel] exampleLibrary_inv sel show ?thesis by simp
qed

text \<open>
  C9 as it is stated fails: \<open>approveWordsForSegment\<close> stores the lemmas it is handed as
  they are, also one that no analysed word of the segment has.
\<close>

theorem approve_foreign_lemma_counterexample:
  "segmentsInv exampleLibrary \<and>
   \<not> segmentsInv (runOps [ApproveWords 10000 exampleNanoid ''A1'' 0 [''ghost'']] exampleLibrary)"
proof -
  have "segments (runOps [ApproveWords 10000 exampleNanoid ''A1'' 0 [''ghost'']] exampleLibrary) =
      [exampleSegment\<lparr>approvedWordIds := [''ghost'']\<rparr>]"
    by (simp add: approveWordsForSegment_def exampleLibrary_segment updateSegment_def put_def exampleWord_def)
       (simp add: exampleLibrary_def exampleSegment_def)
  then have "\<not> segmentsInv (runOps [ApproveWords 10000 exampleNanoid ''A1'' 0 [''ghost'']] exampleLibrary)"
    by (simp add: segmentsInv_def approvedAreAnalyzed_def exampleSegment_def exampleWord_def)
  with exampleLibrary_inv show ?thesis by simp
qed

end
